theory Spec2Isabelle
  imports Main "HOL-Library.Sublist" "HOL-Library.Word"
begin

section \<open>PatternSeeker: a cursor over a borrowed character buffer\<close>

text \<open>
  The development embeds \<^verbatim>\<open>src/PatternSeeker.hpp\<close>. A \<^verbatim>\<open>std::string_view\<close> is a
  pointer into a character array together with a length; the model keeps the array, the
  index of the pointer in it and the length. The array is the text up to (not including)
  its terminating NUL, as for a string literal or a \<^verbatim>\<open>std::string\<close>. Sizes and indices
  are natural numbers (a view is shorter than \<open>2^64\<close> characters), with the wrap-around
  of \<^verbatim>\<open>size_t\<close> written out where the source subtracts or adds past \<^verbatim>\<open>npos\<close>.
  The nesting counter \<^verbatim>\<open>int depth\<close> of the bracket scan is a 32-bit word, read as a
  signed number: \<^verbatim>\<open>++depth\<close> wraps around where the source's signed overflow is
  undefined. The counter never exceeds the number of characters of the view, so it
  cannot overflow on a view shorter than \<open>2^31\<close> characters; the property of the bracket
  scan is stated for such views.

  A call that the C++ standard leaves undefined (\<^verbatim>\<open>remove_prefix(n)\<close> with
  \<^verbatim>\<open>n > size()\<close>, \<^verbatim>\<open>operator[]\<close> out of range) or that throws
  (\<^verbatim>\<open>substr(pos)\<close> with \<^verbatim>\<open>pos > size()\<close>) is a \<open>fault\<close>; every operation that
  moves a view returns \<open>fault + result\<close>.
\<close>

subsection \<open>Data model\<close>

datatype MoveMode = none | move_before | move_after

datatype fault = OutOfRange | UndefinedBehaviour

record string_view =
  sv_mem :: string   \<comment> \<open>the character array \<^verbatim>\<open>data()\<close> points into\<close>
  sv_data :: nat     \<comment> \<open>index of \<^verbatim>\<open>data()\<close> in that array\<close>
  sv_size :: nat     \<comment> \<open>\<^verbatim>\<open>size()\<close>\<close>

record PatternSeeker =
  m_str :: string_view
  m_originalPointer :: nat  \<comment> \<open>index of the origin in the array of \<open>m_str\<close>\<close>

definition sv_text :: "string_view \<Rightarrow> string" where
  "sv_text v = take (sv_size v) (drop (sv_data v) (sv_mem v))"

definition sv_ok :: "string_view \<Rightarrow> bool" where
  "sv_ok v = (sv_data v + sv_size v \<le> length (sv_mem v))"

definition and_then :: "fault + 'a \<Rightarrow> ('a \<Rightarrow> fault + 'b) \<Rightarrow> fault + 'b" where
  "and_then m f = (case m of Inl e \<Rightarrow> Inl e | Inr x \<Rightarrow> f x)"

definition size_t_sub :: "nat \<Rightarrow> nat \<Rightarrow> nat" where
  "size_t_sub a b = (if b \<le> a then a - b else a + 2 ^ 64 - b)"

subsection \<open>The operations of \<^verbatim>\<open>std::string_view\<close> the class uses\<close>

definition sv_remove_prefix :: "nat \<Rightarrow> string_view \<Rightarrow> fault + string_view" where
  "sv_remove_prefix n v =
     (if n \<le> sv_size v
      then Inr (v\<lparr>sv_data := sv_data v + n, sv_size := sv_size v - n\<rparr>)
      else Inl UndefinedBehaviour)"

definition sv_substr :: "nat \<Rightarrow> nat \<Rightarrow> string_view \<Rightarrow> fault + string_view" where
  "sv_substr pos n v =
     (if pos \<le> sv_size v
      then Inr (v\<lparr>sv_data := sv_data v + pos, sv_size := min n (sv_size v - pos)\<rparr>)
      else Inl OutOfRange)"

definition sv_starts_with :: "string \<Rightarrow> string_view \<Rightarrow> bool" where
  "sv_starts_with x v = prefix x (sv_text v)"

fun find_at :: "string \<Rightarrow> string \<Rightarrow> nat \<Rightarrow> nat option" where
  "find_at s [] i = (if s = [] then Some i else None)"
| "find_at s (c # t) i = (if prefix s (c # t) then Some i else find_at s t (Suc i))"

definition sv_find :: "string \<Rightarrow> nat \<Rightarrow> string_view \<Rightarrow> nat option" where
  "sv_find s pos v = (if pos \<le> sv_size v then find_at s (drop pos (sv_text v)) pos else None)"

subsection \<open>Construction\<close>

text \<open>
  The three constructors. A view of the model always points into an array, so the test
  \<^verbatim>\<open>str.data() ? str : EMPTY_STR\<close> of the source, which replaces a view without data by
  the empty placeholder, has no second branch here. \<open>PatternSeeker_of\<close> is the public
  constructor (the origin is the start of the view), \<open>PatternSeeker_derived\<close> the private
  one (the origin is passed on) and \<open>PatternSeeker_empty\<close> the default one, the empty
  sentinel \<^verbatim>\<open>{}\<close>. \<open>view_of s\<close> is the view of a whole text \<open>s\<close>.
\<close>

definition EMPTY_STR :: string_view where
  "EMPTY_STR = \<lparr>sv_mem = [], sv_data = 0, sv_size = 0\<rparr>"

definition DOUBLE_QUOTE :: string where
  "DOUBLE_QUOTE = [CHR 0x22]"

definition view_of :: "string \<Rightarrow> string_view" where
  "view_of s = \<lparr>sv_mem = s, sv_data = 0, sv_size = length s\<rparr>"

definition PatternSeeker_derived :: "string_view \<Rightarrow> nat \<Rightarrow> PatternSeeker" where
  "PatternSeeker_derived str originalPointer =
     \<lparr>m_str = str, m_originalPointer = originalPointer\<rparr>"

definition PatternSeeker_empty :: PatternSeeker where
  "PatternSeeker_empty = \<lparr>m_str = EMPTY_STR, m_originalPointer = 0\<rparr>"

definition PatternSeeker_of :: "string_view \<Rightarrow> PatternSeeker" where
  "PatternSeeker_of str = \<lparr>m_str = str, m_originalPointer = sv_data str\<rparr>"

subsection \<open>Positioning\<close>

definition size_of :: "PatternSeeker \<Rightarrow> nat" where
  "size_of p = sv_size (m_str p)"

definition isEmpty :: "PatternSeeker \<Rightarrow> bool" where
  "isEmpty p = (size_of p = 0)"

definition to_string :: "PatternSeeker \<Rightarrow> string" where
  "to_string p = sv_text (m_str p)"

definition skip :: "nat \<Rightarrow> PatternSeeker \<Rightarrow> fault + PatternSeeker" where
  "skip n p = and_then (sv_remove_prefix n (m_str p)) (\<lambda>v. Inr (p\<lparr>m_str := v\<rparr>))"

definition expect :: "string \<Rightarrow> PatternSeeker \<Rightarrow> fault + (bool \<times> PatternSeeker)" where
  "expect expected p =
     (if sv_starts_with expected (m_str p)
      then and_then (skip (length expected) p) (\<lambda>p'. Inr (True, p'))
      else Inr (False, p))"

definition startsWith :: "string \<Rightarrow> PatternSeeker \<Rightarrow> bool" where
  "startsWith expected p = sv_starts_with expected (m_str p)"

definition to :: "string \<Rightarrow> MoveMode \<Rightarrow> PatternSeeker \<Rightarrow> fault + (bool \<times> PatternSeeker)" where
  "to expected mode p =
     (case sv_find expected 0 (m_str p) of
        None \<Rightarrow> Inr (False, p)
      | Some pos \<Rightarrow>
          and_then
            (case mode of
               move_before \<Rightarrow> skip pos p
             | move_after \<Rightarrow> skip (pos + length expected) p
             | none \<Rightarrow> Inr p)
            (\<lambda>p'. Inr (True, p')))"


subsection \<open>Extraction\<close>

text \<open>
  Every extraction returns the extracted cursor together with the receiver after the
  move the mode asks for. The four overloads of \<^verbatim>\<open>extract\<close> get distinct names.
\<close>

definition move_to :: "MoveMode \<Rightarrow> nat \<Rightarrow> nat \<Rightarrow> PatternSeeker \<Rightarrow> fault + PatternSeeker" where
  "move_to mode front back p =
     (case mode of
        move_before \<Rightarrow> skip front p
      | move_after \<Rightarrow> skip back p
      | none \<Rightarrow> Inr p)"

definition extract_from_to ::
  "string \<Rightarrow> string \<Rightarrow> MoveMode \<Rightarrow> PatternSeeker \<Rightarrow> fault + (PatternSeeker \<times> PatternSeeker)" where
  "extract_from_to from to_s mode p =
     (case sv_find from 0 (m_str p) of
        None \<Rightarrow> Inr (PatternSeeker_empty, p)
      | Some found \<Rightarrow>
          (let startIt = found + length from in
           case sv_find to_s startIt (m_str p) of
             None \<Rightarrow> Inr (PatternSeeker_empty, p)
           | Some endIt \<Rightarrow>
               and_then (sv_substr startIt (size_t_sub endIt startIt) (m_str p)) (\<lambda>substr.
               and_then (move_to mode (size_t_sub startIt (length from)) (endIt + length to_s) p) (\<lambda>p'.
               Inr (PatternSeeker_derived substr (m_originalPointer p'), p')))))"

definition extract_to ::
  "string \<Rightarrow> MoveMode \<Rightarrow> PatternSeeker \<Rightarrow> fault + (PatternSeeker \<times> PatternSeeker)" where
  "extract_to to_s mode p =
     (case sv_find to_s 0 (m_str p) of
        None \<Rightarrow> Inr (PatternSeeker_empty, p)
      | Some endIt \<Rightarrow>
          and_then (sv_substr 0 endIt (m_str p)) (\<lambda>substr.
          and_then (move_to mode endIt (endIt + length to_s) p) (\<lambda>p'.
          Inr (PatternSeeker_derived substr (m_originalPointer p'), p'))))"

fun find_first_of_at :: "string \<Rightarrow> string \<Rightarrow> nat \<Rightarrow> nat option" where
  "find_first_of_at cs [] i = None"
| "find_first_of_at cs (c # t) i =
     (if c \<in> set cs then Some i else find_first_of_at cs t (Suc i))"

definition sv_find_first_of :: "string \<Rightarrow> string_view \<Rightarrow> nat option" where
  "sv_find_first_of cs v = find_first_of_at cs (sv_text v) 0"

definition extractUntilOneOf ::
  "string \<Rightarrow> MoveMode \<Rightarrow> PatternSeeker \<Rightarrow> fault + (PatternSeeker \<times> PatternSeeker)" where
  "extractUntilOneOf to_s mode p =
     (case sv_find_first_of to_s (m_str p) of
        None \<Rightarrow> Inr (PatternSeeker_empty, p)
      | Some endIt \<Rightarrow>
          and_then (sv_substr 0 endIt (m_str p)) (\<lambda>substr.
          and_then (if mode = move_after then skip (endIt + 1) p else Inr p) (\<lambda>p'.
          Inr (PatternSeeker_derived substr (m_originalPointer p'), p'))))"

text \<open>
  The loop of \<^verbatim>\<open>extract(char start, char end, mode)\<close>: the list is the part of the view
  from index \<open>i\<close> on, so the loop stops when the list is empty (\<^verbatim>\<open>i < m_str.size()\<close>
  fails) or at the \<^verbatim>\<open>break\<close>. It returns the final \<open>i\<close> and \<open>depth\<close>. The counter
  \<^verbatim>\<open>int depth\<close> is a 32-bit word.
\<close>

fun depth_loop :: "char \<Rightarrow> char \<Rightarrow> string \<Rightarrow> nat \<Rightarrow> 32 word \<Rightarrow> nat \<times> 32 word" where
  "depth_loop start en [] i depth = (i, depth)"
| "depth_loop start en (ch # rest) i depth =
     (if ch = start then depth_loop start en rest (Suc i) (depth + 1)
      else if ch = en then
        (if depth - 1 = 0 then (Suc i, depth - 1)
         else depth_loop start en rest (Suc i) (depth - 1))
      else depth_loop start en rest (Suc i) depth)"

definition extract_chars ::
  "char \<Rightarrow> char \<Rightarrow> MoveMode \<Rightarrow> PatternSeeker \<Rightarrow> fault + (PatternSeeker \<times> PatternSeeker)" where
  "extract_chars start en mode p =
     (case sv_find [start] 0 (m_str p) of
        None \<Rightarrow> Inr (PatternSeeker_empty, p)
      | Some startIndex \<Rightarrow>
          (case depth_loop start en (drop (startIndex + 1) (sv_text (m_str p))) (startIndex + 1) 1 of
             (i, depth) \<Rightarrow>
               if depth \<noteq> 0 then Inr (PatternSeeker_empty, p)
               else
                 and_then (sv_substr startIndex (size_t_sub i startIndex) (m_str p)) (\<lambda>substr.
                 and_then (move_to mode startIndex i p) (\<lambda>p'.
                 Inr (PatternSeeker_derived substr (m_originalPointer p'), p')))))"

definition extract_size ::
  "nat \<Rightarrow> MoveMode \<Rightarrow> PatternSeeker \<Rightarrow> fault + (PatternSeeker \<times> PatternSeeker)" where
  "extract_size n mode p =
     and_then (sv_substr 0 n (m_str p)) (\<lambda>substr.
     and_then (if mode = move_after then skip n p else Inr p) (\<lambda>p'.
     Inr (PatternSeeker_derived substr (m_originalPointer p'), p')))"

subsection \<open>Numbers and white space\<close>

text \<open>
  \<^verbatim>\<open>std::strtoull\<close> and \<^verbatim>\<open>std::strtoll\<close> belong to the C library; they are modelled from
  the C standard (7.22.1.4) for base 10 in the "C" locale: white space is skipped, one
  optional sign is read, then the longest run of decimal digits. Without a digit nothing is
  converted and the end pointer is the start. A value out of range gives the largest
  (smallest) value of the type and \<^verbatim>\<open>ERANGE\<close>; \<^verbatim>\<open>strtoull\<close> negates a value that
  follows a minus sign in the unsigned type. The functions read the NUL-terminated text
  that starts at \<^verbatim>\<open>m_str.data()\<close>, which is the rest of the array and not only the view.
  The result is the value, the \<^verbatim>\<open>errno\<close> flag and the number of characters up to the
  end pointer.
\<close>

definition isspace :: "char \<Rightarrow> bool" where
  "isspace c = (c \<in> set [CHR '' '', CHR 0x09, CHR 0x0A, CHR 0x0B, CHR 0x0C, CHR 0x0D])"

definition isdigit :: "char \<Rightarrow> bool" where
  "isdigit c = (c \<in> set ''0123456789'')"

definition decimal :: "string \<Rightarrow> nat" where
  "decimal ds = foldl (\<lambda>acc c. 10 * acc + (of_char c - 48)) 0 ds"

definition sign_length :: "string \<Rightarrow> nat" where
  "sign_length r = (case r of [] \<Rightarrow> 0 | c # _ \<Rightarrow> if c = CHR ''-'' \<or> c = CHR ''+'' then 1 else 0)"

definition negative :: "string \<Rightarrow> bool" where
  "negative r = (case r of [] \<Rightarrow> False | c # _ \<Rightarrow> c = CHR ''-'')"

definition strtoull :: "string \<Rightarrow> 64 word \<times> bool \<times> nat" where
  "strtoull s =
     (let r = dropWhile isspace s;
          ds = takeWhile isdigit (drop (sign_length r) r);
          consumed = length (takeWhile isspace s) + sign_length r + length ds
      in if ds = [] then (0, False, 0)
         else if 2 ^ 64 \<le> decimal ds then (- 1, True, consumed)
         else (if negative r then - of_nat (decimal ds) else of_nat (decimal ds), False, consumed))"

definition strtoll :: "string \<Rightarrow> 64 word \<times> bool \<times> nat" where
  "strtoll s =
     (let r = dropWhile isspace s;
          ds = takeWhile isdigit (drop (sign_length r) r);
          consumed = length (takeWhile isspace s) + sign_length r + length ds
      in if ds = [] then (0, False, 0)
         else if negative r then
           (if 2 ^ 63 < decimal ds then (of_int (- (2 ^ 63)), True, consumed)
            else (of_int (- int (decimal ds)), False, consumed))
         else
           (if 2 ^ 63 \<le> decimal ds then (of_int (2 ^ 63 - 1), True, consumed)
            else (of_int (int (decimal ds)), False, consumed)))"

definition c_str :: "string_view \<Rightarrow> string" where
  "c_str v = drop (sv_data v) (sv_mem v)"

definition takeUInt64 :: "PatternSeeker \<Rightarrow> fault + (64 word option \<times> PatternSeeker)" where
  "takeUInt64 p =
     (case strtoull (c_str (m_str p)) of
        (result, errno, consumed) \<Rightarrow>
          (let isError = (errno \<or> consumed = 0) in
           and_then (skip consumed p) (\<lambda>p'.
           Inr (if isError then None else Some result, p'))))"

definition takeUInt64_def_value :: "64 word \<Rightarrow> PatternSeeker \<Rightarrow> fault + (64 word \<times> PatternSeeker)" where
  "takeUInt64_def_value def p =
     and_then (takeUInt64 p) (\<lambda>(res, p').
     Inr (case res of None \<Rightarrow> def | Some r \<Rightarrow> r, p'))"

definition takeInt64 :: "PatternSeeker \<Rightarrow> fault + (64 word option \<times> PatternSeeker)" where
  "takeInt64 p =
     (case strtoll (c_str (m_str p)) of
        (result, errno, consumed) \<Rightarrow>
          (let isError = (errno \<or> consumed = 0) in
           and_then (skip consumed p) (\<lambda>p'.
           Inr (if isError then None else Some result, p'))))"

function skipWhiteSpaces :: "PatternSeeker \<Rightarrow> fault + PatternSeeker" where
  "skipWhiteSpaces p =
     (if sv_size (m_str p) \<noteq> 0 \<and> isspace (sv_mem (m_str p) ! sv_data (m_str p))
      then (case sv_remove_prefix 1 (m_str p) of
              Inl e \<Rightarrow> Inl e
            | Inr v \<Rightarrow> skipWhiteSpaces (p\<lparr>m_str := v\<rparr>))
      else Inr p)"
  by pat_completeness auto
termination
  by (relation "measure (\<lambda>p. sv_size (m_str p))")
     (auto simp: sv_remove_prefix_def split: if_splits)

declare skipWhiteSpaces.simps [simp del]

subsection \<open>JSON and XML helpers\<close>

definition getJsonProp :: "string \<Rightarrow> PatternSeeker \<Rightarrow> fault + (PatternSeeker \<times> PatternSeeker)" where
  "getJsonProp prop p =
     and_then (to (DOUBLE_QUOTE @ prop @ DOUBLE_QUOTE) move_after p) (\<lambda>(found, copy1).
     if \<not> found then Inr (PatternSeeker_empty, p)
     else
       and_then (skipWhiteSpaces copy1) (\<lambda>copy2.
       and_then (expect '':'' copy2) (\<lambda>(colon, copy3).
       if \<not> colon then Inr (PatternSeeker_empty, p)
       else
         and_then (skipWhiteSpaces copy3) (\<lambda>copy4.
         and_then (expect DOUBLE_QUOTE copy4) (\<lambda>(quoted, copy5).
         if quoted then and_then (extract_to DOUBLE_QUOTE none copy5) (\<lambda>(r, _). Inr (r, p))
         else if startsWith ''['' copy5 then
           and_then (extract_chars CHR ''['' CHR '']'' none copy5) (\<lambda>(r, _). Inr (r, p))
         else if startsWith ''{'' copy5 then
           and_then (extract_chars CHR ''{'' CHR ''}'' none copy5) (\<lambda>(r, _). Inr (r, p))
         else
           and_then (extractUntilOneOf [CHR '','', CHR '' '', CHR 0x0D, CHR 0x0A, CHR '']'', CHR ''}''] none copy5)
             (\<lambda>(r, _). Inr (r, p)))))))"

definition getXmlTag ::
  "string \<Rightarrow> MoveMode \<Rightarrow> PatternSeeker \<Rightarrow> fault + (PatternSeeker \<times> PatternSeeker)" where
  "getXmlTag prop mode p =
     (let startTag = ''<'' @ prop in
      case sv_find startTag 0 (m_str p) of
        None \<Rightarrow> Inr (PatternSeeker_empty, p)
      | Some startPos \<Rightarrow>
          (let endTag = ''</'' @ prop @ ''>'' in
           case sv_find endTag (startPos + length startTag) (m_str p) of
             None \<Rightarrow> Inr (PatternSeeker_empty, p)
           | Some endPos \<Rightarrow>
               and_then (sv_substr startPos (size_t_sub (endPos + length endTag) startPos) (m_str p))
                 (\<lambda>substr.
               and_then (move_to mode startPos (endPos + length endTag) p) (\<lambda>p'.
               Inr (PatternSeeker_derived substr (m_originalPointer p'), p')))))"

fun rfind_at :: "string \<Rightarrow> string \<Rightarrow> nat \<Rightarrow> nat option \<Rightarrow> nat option" where
  "rfind_at s [] i found = (if s = [] then Some i else found)"
| "rfind_at s (c # t) i found =
     rfind_at s t (Suc i) (if prefix s (c # t) then Some i else found)"

definition sv_rfind :: "string \<Rightarrow> string_view \<Rightarrow> nat option" where
  "sv_rfind s v = rfind_at s (sv_text v) 0 None"

text \<open>
  \<^verbatim>\<open>getXmlTagBody\<close> returns a \<^verbatim>\<open>std::string_view\<close> where a \<^verbatim>\<open>PatternSeeker\<close> is
  expected: the conversion is the public constructor, which takes the start of the view
  as the origin. \<^verbatim>\<open>find('>') + 1\<close> is \<open>0\<close> when nothing is found (\<^verbatim>\<open>npos + 1\<close>).
\<close>

definition getXmlTagBody ::
  "string \<Rightarrow> MoveMode \<Rightarrow> PatternSeeker \<Rightarrow> fault + (PatternSeeker \<times> PatternSeeker)" where
  "getXmlTagBody prop mode p =
     and_then (getXmlTag prop mode p) (\<lambda>(res, p').
     if isEmpty res then Inr (PatternSeeker_empty, p')
     else
       (let startPos = (case sv_find ''>'' 0 (m_str res) of None \<Rightarrow> 0 | Some i \<Rightarrow> i + 1) in
        case sv_rfind (''</'' @ prop @ ''>'') (m_str res) of
          None \<Rightarrow> Inr (PatternSeeker_empty, p')
        | Some endPos \<Rightarrow>
            and_then (sv_substr startPos (size_t_sub endPos startPos) (m_str res)) (\<lambda>body.
            Inr (PatternSeeker_of body, p'))))"

definition getXmlAttr :: "string \<Rightarrow> PatternSeeker \<Rightarrow> fault + (PatternSeeker \<times> PatternSeeker)" where
  "getXmlAttr prop p =
     and_then (to prop move_after p) (\<lambda>(found, copy1).
     if \<not> found then Inr (PatternSeeker_empty, p)
     else
       and_then (skipWhiteSpaces copy1) (\<lambda>copy2.
       and_then (expect ''='' copy2) (\<lambda>(_, copy3).
       and_then (skipWhiteSpaces copy3) (\<lambda>copy4.
       and_then (extract_from_to DOUBLE_QUOTE DOUBLE_QUOTE none copy4) (\<lambda>(r, _). Inr (r, p))))))"

definition getOffset :: "PatternSeeker \<Rightarrow> nat" where
  "getOffset p = size_t_sub (sv_data (m_str p)) (m_originalPointer p)"

definition getOriginalPosition :: "PatternSeeker \<Rightarrow> nat" where
  "getOriginalPosition p = size_t_sub (sv_data (m_str p)) (m_originalPointer p)"


subsection \<open>Vocabulary of the properties\<close>

text \<open>
  \<open>sub_cursor pos n c\<close> is the cursor over the \<open>n\<close> characters from index \<open>pos\<close> of the view of
  \<open>c\<close>, in the same array and with the same origin; \<open>advanced n c\<close> is \<open>c\<close> after its view
  moved \<open>n\<close> characters forward. \<open>first_from s t pos k\<close>: the first occurrence of \<open>s\<close> in \<open>t\<close>
  at or after \<open>pos\<close> is at index \<open>k\<close>. \<open>nesting start en w\<close> is the depth after the first
  \<open>start\<close> and the characters \<open>w\<close>: one more for each \<open>start\<close>, one less for each \<open>en\<close>.
\<close>

definition sub_cursor :: "nat \<Rightarrow> nat \<Rightarrow> PatternSeeker \<Rightarrow> PatternSeeker" where
  "sub_cursor pos n c = c\<lparr>m_str := (m_str c)\<lparr>sv_data := sv_data (m_str c) + pos, sv_size := n\<rparr>\<rparr>"

definition advanced :: "nat \<Rightarrow> PatternSeeker \<Rightarrow> PatternSeeker" where
  "advanced n c = sub_cursor n (size_of c - n) c"

definition moved :: "MoveMode \<Rightarrow> nat \<Rightarrow> nat \<Rightarrow> PatternSeeker \<Rightarrow> PatternSeeker" where
  "moved mode front back c =
     (case mode of none \<Rightarrow> c | move_before \<Rightarrow> advanced front c | move_after \<Rightarrow> advanced back c)"

definition occurs_at :: "string \<Rightarrow> string \<Rightarrow> nat \<Rightarrow> bool" where
  "occurs_at s t k = (k \<le> length t \<and> prefix s (drop k t))"

definition first_from :: "string \<Rightarrow> string \<Rightarrow> nat \<Rightarrow> nat \<Rightarrow> bool" where
  "first_from s t pos k = (pos \<le> k \<and> occurs_at s t k \<and> (\<forall>j \<in> {pos..<k}. \<not> occurs_at s t j))"

definition absent_from :: "string \<Rightarrow> string \<Rightarrow> nat \<Rightarrow> bool" where
  "absent_from s t pos = (\<forall>j \<in> {pos..length t}. \<not> occurs_at s t j)"

definition nesting :: "char \<Rightarrow> char \<Rightarrow> string \<Rightarrow> int" where
  "nesting start en w = 1 + int (count_list w start) - int (count_list w en)"

subsection \<open>Documents of the test suite\<close>

text \<open>The texts that \<^verbatim>\<open>src/tests/test_main.cpp\<close> parses in \<^verbatim>\<open>test_json\<close> and \<^verbatim>\<open>test_xml\<close>.\<close>

definition test_json :: string where
  "test_json =
     ''{\"name\": \"John\", \"age\": 30, \"array\": [1,2,3], \"obj\": {\"nested\": \"value\"}}''"

definition test_xml :: string where
  "test_xml = ''<root><name>John</name><age>30</age></root>''"

section \<open>Basic facts\<close>

lemma and_then_simps [simp]:
  "and_then (Inl e) f = Inl e"
  "and_then (Inr x) f = f x"
  by (simp_all add: and_then_def)

lemma size_t_sub_le [simp]: "b \<le> a \<Longrightarrow> size_t_sub a b = a - b"
  by (simp add: size_t_sub_def)

lemma length_sv_text_le: "length (sv_text v) \<le> sv_size v"
  by (simp add: sv_text_def)

lemma length_sv_text: "sv_ok v \<Longrightarrow> length (sv_text v) = sv_size v"
  by (simp add: sv_text_def sv_ok_def)

lemma skip_eq: "n \<le> size_of c \<Longrightarrow> skip n c = Inr (advanced n c)"
  by (simp add: skip_def sv_remove_prefix_def advanced_def sub_cursor_def size_of_def)

lemma skip_fault: "size_of c < n \<Longrightarrow> skip n c = Inl UndefinedBehaviour"
  by (simp add: skip_def sv_remove_prefix_def size_of_def)

lemma move_to_eq:
  "front \<le> size_of c \<Longrightarrow> back \<le> size_of c \<Longrightarrow>
   move_to mode front back c = Inr (moved mode front back c)"
  by (cases mode) (simp_all add: move_to_def moved_def skip_eq)

lemma advanced_0 [simp]: "advanced 0 c = c"
  by (simp add: advanced_def sub_cursor_def size_of_def)

lemma to_string_sub_cursor:
  "pos + n \<le> size_of c \<Longrightarrow> to_string (sub_cursor pos n c) = take n (drop pos (to_string c))"
  by (simp add: to_string_def sub_cursor_def sv_text_def size_of_def drop_take add.commute)

lemma to_string_advanced: "to_string (advanced n c) = drop n (to_string c)"
  by (simp add: advanced_def to_string_def sub_cursor_def sv_text_def size_of_def drop_take add.commute)

lemma size_of_sub_cursor [simp]: "size_of (sub_cursor pos n c) = n"
  by (simp add: size_of_def sub_cursor_def)

lemma size_of_advanced [simp]: "size_of (advanced n c) = size_of c - n"
  by (simp add: advanced_def)

lemma origin_sub_cursor [simp]: "m_originalPointer (sub_cursor pos n c) = m_originalPointer c"
  by (simp add: sub_cursor_def)

lemma sv_ok_sub_cursor:
  "sv_ok (m_str c) \<Longrightarrow> pos + n \<le> size_of c \<Longrightarrow> sv_ok (m_str (sub_cursor pos n c))"
  by (simp add: sv_ok_def sub_cursor_def size_of_def)

lemma sv_ok_advanced:
  "sv_ok (m_str c) \<Longrightarrow> n \<le> size_of c \<Longrightarrow> sv_ok (m_str (advanced n c))"
  by (simp add: advanced_def sv_ok_sub_cursor)

lemma sv_substr_eq:
  "pos \<le> size_of c \<Longrightarrow>
   and_then (sv_substr pos n (m_str c))
     (\<lambda>substr. f (PatternSeeker_derived substr (m_originalPointer c)))
     = f (sub_cursor pos (min n (size_of c - pos)) c)"
  by (cases c) (simp add: sv_substr_def PatternSeeker_derived_def sub_cursor_def size_of_def)

section \<open>expect and startsWith\<close>

text \<open>
  Claim C7. For every cursor \<open>c\<close> and literal \<open>s\<close>: when \<open>startsWith s c\<close> holds, \<open>expect s c\<close>
  returns true and the view of \<open>c\<close> has advanced by exactly \<open>length s\<close> characters (which
  the view has); when it does not hold, \<open>expect s c\<close> returns false and \<open>c\<close> is unchanged.
  Neither case faults.
\<close>

theorem expect_iff_startsWith:
  "(startsWith s c \<longrightarrow> expect s c = Inr (True, advanced (length s) c) \<and> length s \<le> size_of c)
   \<and> (\<not> startsWith s c \<longrightarrow> expect s c = Inr (False, c))"
proof (intro conjI impI)
  assume "startsWith s c"
  then have p: "prefix s (sv_text (m_str c))"
    by (simp add: startsWith_def sv_starts_with_def)
  then have "length s \<le> length (sv_text (m_str c))"
    by (rule prefix_length_le)
  then show le: "length s \<le> size_of c"
    using length_sv_text_le [of "m_str c"] by (simp add: size_of_def)
  show "expect s c = Inr (True, advanced (length s) c)"
    using p le by (simp add: expect_def sv_starts_with_def skip_eq)
next
  assume "\<not> startsWith s c"
  then show "expect s c = Inr (False, c)"
    by (simp add: expect_def startsWith_def)
qed

theorem expect_iff_startsWith_witness:
  "startsWith ''Hello'' (PatternSeeker_of (view_of ''Hello, World!''))
   \<and> expect ''Hello'' (PatternSeeker_of (view_of ''Hello, World!''))
       = Inr (True, advanced 5 (PatternSeeker_of (view_of ''Hello, World!'')))
   \<and> to_string (advanced 5 (PatternSeeker_of (view_of ''Hello, World!''))) = '', World!''
   \<and> \<not> startsWith ''Goodbye'' (PatternSeeker_of (view_of ''Hello, World!''))
   \<and> expect ''Goodbye'' (PatternSeeker_of (view_of ''Hello, World!''))
       = Inr (False, PatternSeeker_of (view_of ''Hello, World!''))"
proof -
  let ?c = "PatternSeeker_of (view_of ''Hello, World!'')"
  have t: "to_string ?c = ''Hello, World!''"
    by (simp add: to_string_def PatternSeeker_of_def view_of_def sv_text_def)
  have a: "startsWith ''Hello'' ?c"
    by (simp add: startsWith_def sv_starts_with_def PatternSeeker_of_def view_of_def sv_text_def)
  have b: "\<not> startsWith ''Goodbye'' ?c"
    by (simp add: startsWith_def sv_starts_with_def PatternSeeker_of_def view_of_def sv_text_def)
  have c: "to_string (advanced 5 ?c) = '', World!''"
    by (simp add: to_string_advanced t)
  show ?thesis
    using a b c expect_iff_startsWith [of "''Hello''" ?c]
      expect_iff_startsWith [of "''Goodbye''" ?c]
    by (simp add: eval_nat_numeral)
qed

section \<open>Searching: \<^verbatim>\<open>find\<close> returns the first occurrence\<close>

lemma find_at_Some:
  "find_at s t i = Some k \<Longrightarrow>
     i \<le> k \<and> k - i \<le> length t \<and> prefix s (drop (k - i) t)
     \<and> (\<forall>j < k - i. \<not> prefix s (drop j t))"
proof (induction t arbitrary: i)
  case Nil
  then show ?case by (auto split: if_splits)
next
  case (Cons c t)
  show ?case
  proof (cases "prefix s (c # t)")
    case True
    with Cons.prems show ?thesis by simp
  next
    case False
    with Cons.prems have r: "find_at s t (Suc i) = Some k" by simp
    from Cons.IH [OF r] have ih: "Suc i \<le> k" "k - Suc i \<le> length t"
      "prefix s (drop (k - Suc i) t)" "\<forall>j < k - Suc i. \<not> prefix s (drop j t)" by auto
    have e: "k - i = Suc (k - Suc i)" using ih(1) by simp
    show ?thesis
    proof (intro conjI allI impI)
      show "i \<le> k" using ih(1) by simp
      show "k - i \<le> length (c # t)" using ih(2) e by simp
      show "prefix s (drop (k - i) (c # t))" using ih(3) e by simp
      fix j assume "j < k - i"
      then show "\<not> prefix s (drop j (c # t))"
        using False ih(4) e by (cases j) auto
    qed
  qed
qed

lemma find_at_None:
  "find_at s t i = None \<Longrightarrow> j \<le> length t \<Longrightarrow> \<not> prefix s (drop j t)"
proof (induction t arbitrary: i j)
  case Nil
  then show ?case by (auto split: if_splits)
next
  case (Cons c t)
  then show ?case by (cases j) (auto split: if_splits)
qed

lemma find_at_first:
  "k \<le> length t \<Longrightarrow> prefix s (drop k t) \<Longrightarrow> \<forall>j < k. \<not> prefix s (drop j t) \<Longrightarrow>
   find_at s t i = Some (i + k)"
proof (induction t arbitrary: i k)
  case Nil
  then show ?case by simp
next
  case (Cons c t)
  show ?case
  proof (cases k)
    case 0
    with Cons.prems show ?thesis by simp
  next
    case (Suc k')
    with Cons.prems have n: "\<not> prefix s (c # t)" by fastforce
    have "find_at s t (Suc i) = Some (Suc i + k')"
    proof (rule Cons.IH)
      show "k' \<le> length t" using Cons.prems(1) Suc by simp
      show "prefix s (drop k' t)" using Cons.prems(2) Suc by simp
      show "\<forall>j < k'. \<not> prefix s (drop j t)"
      proof (intro allI impI)
        fix j assume "j < k'"
        then have "Suc j < k" using Suc by simp
        with Cons.prems(3) have "\<not> prefix s (drop (Suc j) (c # t))" by blast
        then show "\<not> prefix s (drop j t)" by simp
      qed
    qed
    with n Suc show ?thesis by simp
  qed
qed

lemma sv_find_first:
  assumes ok: "sv_ok v" and f: "first_from s (sv_text v) pos k"
  shows "sv_find s pos v = Some k"
proof -
  let ?t = "sv_text v"
  from f have pk: "pos \<le> k" and kl: "k \<le> length ?t" and pr: "prefix s (drop k ?t)"
    and no: "\<forall>j \<in> {pos..<k}. \<not> occurs_at s ?t j"
    by (auto simp: first_from_def occurs_at_def)
  have len: "length ?t = sv_size v" using ok by (rule length_sv_text)
  have "find_at s (drop pos ?t) pos = Some (pos + (k - pos))"
  proof (rule find_at_first)
    show "k - pos \<le> length (drop pos ?t)" using kl pk by simp
    show "prefix s (drop (k - pos) (drop pos ?t))" using pr pk by simp
    show "\<forall>j < k - pos. \<not> prefix s (drop j (drop pos ?t))"
    proof (intro allI impI)
      fix j assume j: "j < k - pos"
      then have "j + pos \<in> {pos..<k}" by auto
      with no have "\<not> occurs_at s ?t (j + pos)" by blast
      moreover have "j + pos \<le> length ?t" using j kl by simp
      ultimately show "\<not> prefix s (drop j (drop pos ?t))"
        by (simp add: occurs_at_def)
    qed
  qed
  then show ?thesis using pk kl len by (simp add: sv_find_def)
qed

lemma sv_find_Some_first:
  assumes ok: "sv_ok v" and f: "sv_find s pos v = Some k"
  shows "first_from s (sv_text v) pos k"
proof -
  let ?t = "sv_text v"
  have len: "length ?t = sv_size v" using ok by (rule length_sv_text)
  from f have ps: "pos \<le> length ?t" and fa: "find_at s (drop pos ?t) pos = Some k"
    by (auto simp: sv_find_def len split: if_splits)
  from find_at_Some [OF fa] have a: "pos \<le> k" "k - pos \<le> length (drop pos ?t)"
    "prefix s (drop (k - pos) (drop pos ?t))"
    "\<forall>j < k - pos. \<not> prefix s (drop j (drop pos ?t))" by auto
  have kl: "k \<le> length ?t" using a(1,2) ps by simp
  have pr: "prefix s (drop k ?t)" using a(1,3) by simp
  have "\<not> occurs_at s ?t j" if "j \<in> {pos..<k}" for j
  proof -
    from that have "j - pos < k - pos" by auto
    with a(4) have "\<not> prefix s (drop (j - pos) (drop pos ?t))" by blast
    moreover have "j - pos + pos = j" using that by simp
    ultimately show ?thesis by (simp add: occurs_at_def)
  qed
  then show ?thesis using a(1) kl pr by (auto simp: first_from_def occurs_at_def)
qed

lemma sv_find_absent:
  assumes ok: "sv_ok v" and a: "absent_from s (sv_text v) pos"
  shows "sv_find s pos v = None"
proof (cases "sv_find s pos v")
  case None
  then show ?thesis .
next
  case (Some k)
  let ?t = "sv_text v"
  have len: "length ?t = sv_size v" using ok by (rule length_sv_text)
  from Some have ps: "pos \<le> length ?t" and fa: "find_at s (drop pos ?t) pos = Some k"
    by (auto simp: sv_find_def len split: if_splits)
  from find_at_Some [OF fa] have b: "pos \<le> k" "k - pos \<le> length (drop pos ?t)"
    "prefix s (drop (k - pos) (drop pos ?t))" by auto
  have "k \<in> {pos..length ?t}" using b(1,2) ps by auto
  moreover have "occurs_at s ?t k" using b ps by (simp add: occurs_at_def)
  ultimately show ?thesis using a by (auto simp: absent_from_def)
qed

lemma sv_find_None_absent:
  assumes ok: "sv_ok v" and ps: "pos \<le> sv_size v" and f: "sv_find s pos v = None"
  shows "absent_from s (sv_text v) pos"
proof -
  let ?t = "sv_text v"
  have len: "length ?t = sv_size v" using ok by (rule length_sv_text)
  from f ps have fa: "find_at s (drop pos ?t) pos = None" by (simp add: sv_find_def)
  have "\<not> occurs_at s ?t j" if "j \<in> {pos..length ?t}" for j
  proof -
    from that have "j - pos \<le> length (drop pos ?t)" by auto
    with find_at_None [OF fa] have "\<not> prefix s (drop (j - pos) (drop pos ?t))" by blast
    moreover have "j - pos + pos = j" using that by simp
    ultimately show ?thesis by (simp add: occurs_at_def)
  qed
  then show ?thesis by (simp add: absent_from_def)
qed

lemma sv_find_bound:
  assumes "sv_find s pos v = Some k"
  shows "pos \<le> k \<and> k + length s \<le> sv_size v"
proof -
  let ?t = "sv_text v"
  from assms have ps: "pos \<le> sv_size v" and fa: "find_at s (drop pos ?t) pos = Some k"
    by (auto simp: sv_find_def split: if_splits)
  from find_at_Some [OF fa] have b: "pos \<le> k" "k - pos \<le> length (drop pos ?t)"
    "prefix s (drop (k - pos) (drop pos ?t))" by auto
  from b(3) have l: "length s \<le> length (drop (k - pos) (drop pos ?t))"
    by (rule prefix_length_le)
  show ?thesis
  proof (cases "pos \<le> length ?t")
    case True
    with l b have "k + length s \<le> length ?t" by simp
    with length_sv_text_le [of v] b(1) show ?thesis by simp
  next
    case False
    with l b have "length s = 0" "k = pos" by simp_all
    with ps show ?thesis by simp
  qed
qed

section \<open>Extraction between two literals\<close>

lemma extract_from_to_found:
  assumes ok: "sv_ok (m_str c)"
    and f1: "first_from from (to_string c) 0 i"
    and f2: "first_from to_s (to_string c) (i + length from) e"
  shows "extract_from_to from to_s mode c
           = Inr (sub_cursor (i + length from) (e - (i + length from)) c, moved mode i (e + length to_s) c)"
proof -
  have s1: "sv_find from 0 (m_str c) = Some i"
    using ok f1 by (simp add: sv_find_first to_string_def)
  have s2: "sv_find to_s (i + length from) (m_str c) = Some e"
    using ok f2 by (simp add: sv_find_first to_string_def)
  from sv_find_bound [OF s2] have b: "i + length from \<le> e" "e + length to_s \<le> size_of c"
    by (simp_all add: size_of_def)
  have m: "move_to mode i (e + length to_s) c = Inr (moved mode i (e + length to_s) c)"
    using b by (intro move_to_eq) simp_all
  have o: "m_originalPointer (moved mode i (e + length to_s) c) = m_originalPointer c"
    by (cases mode) (simp_all add: moved_def advanced_def)
  have "extract_from_to from to_s mode c
      = and_then (sv_substr (i + length from) (e - (i + length from)) (m_str c)) (\<lambda>substr.
          Inr (PatternSeeker_derived substr (m_originalPointer c), moved mode i (e + length to_s) c))"
    using b by (simp add: extract_from_to_def s1 s2 m o Let_def)
  also have "\<dots> = Inr (sub_cursor (i + length from) (min (e - (i + length from)) (size_of c - (i + length from))) c,
                     moved mode i (e + length to_s) c)"
    using b by (intro sv_substr_eq) simp
  also have "min (e - (i + length from)) (size_of c - (i + length from)) = e - (i + length from)"
    using b by simp
  finally show ?thesis .
qed

lemma extract_from_to_no_from:
  assumes ok: "sv_ok (m_str c)" and a: "absent_from from (to_string c) 0"
  shows "extract_from_to from to_s mode c = Inr (PatternSeeker_empty, c)"
  using ok a by (simp add: extract_from_to_def sv_find_absent to_string_def)

lemma extract_from_to_no_to:
  assumes ok: "sv_ok (m_str c)"
    and f1: "first_from from (to_string c) 0 i"
    and a: "absent_from to_s (to_string c) (i + length from)"
  shows "extract_from_to from to_s mode c = Inr (PatternSeeker_empty, c)"
proof -
  have s1: "sv_find from 0 (m_str c) = Some i"
    using ok f1 by (simp add: sv_find_first to_string_def)
  have s2: "sv_find to_s (i + length from) (m_str c) = None"
    using ok a by (simp add: sv_find_absent to_string_def)
  show ?thesis by (simp add: extract_from_to_def s1 s2 Let_def)
qed

lemma between_text:
  assumes f1: "first_from from t 0 i" and f2: "first_from to_s t (i + length from) e"
  shows "t = take i t @ from @ take (e - (i + length from)) (drop (i + length from) t)
               @ to_s @ drop (e + length to_s) t"
proof -
  from f1 have p1: "prefix from (drop i t)" by (simp add: first_from_def occurs_at_def)
  from f2 have le: "i + length from \<le> e" and p2: "prefix to_s (drop e t)"
    by (simp_all add: first_from_def occurs_at_def)
  from p1 have d1: "drop i t = from @ drop (i + length from) t"
    by (metis add.commute append_eq_conv_conj drop_drop prefix_def)
  from p2 have d2: "drop e t = to_s @ drop (e + length to_s) t"
    by (metis add.commute append_eq_conv_conj drop_drop prefix_def)
  have "drop (i + length from) t
      = take (e - (i + length from)) (drop (i + length from) t) @ drop e t"
    using le by (metis append_take_drop_id drop_drop le_add_diff_inverse2)
  with d1 d2 have "drop i t = from @ take (e - (i + length from)) (drop (i + length from) t)
                      @ to_s @ drop (e + length to_s) t" by simp
  then show ?thesis by (metis append_take_drop_id)
qed

text \<open>
  Claim C6. For every cursor \<open>c\<close> (a view inside its array) and literals \<open>from\<close>, \<open>to_s\<close>:
  when the first occurrence of \<open>from\<close> in the view is at \<open>i\<close> and the first occurrence of
  \<open>to_s\<close> at or after the end of that occurrence is at \<open>e\<close>, \<open>extract(from, to, mode)\<close> returns
  the cursor over the text strictly between them (the view is the text before \<open>i\<close>, then
  \<open>from\<close>, then the result, then \<open>to_s\<close>, then the rest) and moves the receiver as the mode
  says; when \<open>from\<close> does not occur, or \<open>to_s\<close> does not occur after it, the result is the
  empty sentinel and the receiver is unchanged. On \<^verbatim>\<open>Hello, <name>World</name>!\<close> the
  result for \<^verbatim>\<open><name>\<close>, \<^verbatim>\<open></name>\<close> is \<^verbatim>\<open>World\<close>.
\<close>

theorem extract_from_to_between:
  assumes ok: "sv_ok (m_str c)"
  shows
    "(first_from from (to_string c) 0 i \<and> first_from to_s (to_string c) (i + length from) e \<longrightarrow>
        extract_from_to from to_s mode c
          = Inr (sub_cursor (i + length from) (e - (i + length from)) c, moved mode i (e + length to_s) c)
        \<and> to_string c
          = take i (to_string c) @ from
            @ to_string (sub_cursor (i + length from) (e - (i + length from)) c)
            @ to_s @ drop (e + length to_s) (to_string c))
     \<and> (absent_from from (to_string c) 0 \<longrightarrow>
          extract_from_to from to_s mode c = Inr (PatternSeeker_empty, c))
     \<and> (first_from from (to_string c) 0 i \<and> absent_from to_s (to_string c) (i + length from) \<longrightarrow>
          extract_from_to from to_s mode c = Inr (PatternSeeker_empty, c))
     \<and> extract_from_to ''<name>'' ''</name>'' none
          (PatternSeeker_of (view_of ''Hello, <name>World</name>!''))
        = Inr (sub_cursor 13 5 (PatternSeeker_of (view_of ''Hello, <name>World</name>!'')),
               PatternSeeker_of (view_of ''Hello, <name>World</name>!''))
     \<and> to_string (sub_cursor 13 5 (PatternSeeker_of (view_of ''Hello, <name>World</name>!''))) = ''World''"
proof (intro conjI impI)
  assume h: "first_from from (to_string c) 0 i \<and> first_from to_s (to_string c) (i + length from) e"
  then show "extract_from_to from to_s mode c
      = Inr (sub_cursor (i + length from) (e - (i + length from)) c, moved mode i (e + length to_s) c)"
    using ok by (simp add: extract_from_to_found)
  from h have "e \<le> length (to_string c)" "i + length from \<le> e"
    by (simp_all add: first_from_def occurs_at_def)
  then have "i + length from + (e - (i + length from)) \<le> size_of c"
    using length_sv_text_le [of "m_str c"] by (simp add: to_string_def size_of_def)
  then have "to_string (sub_cursor (i + length from) (e - (i + length from)) c)
      = take (e - (i + length from)) (drop (i + length from) (to_string c))"
    by (rule to_string_sub_cursor)
  with between_text [of "from" "to_string c" i to_s e] h
  show "to_string c = take i (to_string c) @ from
            @ to_string (sub_cursor (i + length from) (e - (i + length from)) c)
            @ to_s @ drop (e + length to_s) (to_string c)"
    by simp
next
  assume "absent_from from (to_string c) 0"
  with ok show "extract_from_to from to_s mode c = Inr (PatternSeeker_empty, c)"
    by (rule extract_from_to_no_from)
next
  assume "first_from from (to_string c) 0 i \<and> absent_from to_s (to_string c) (i + length from)"
  then have "first_from from (to_string c) 0 i" "absent_from to_s (to_string c) (i + length from)"
    by simp_all
  with ok show "extract_from_to from to_s mode c = Inr (PatternSeeker_empty, c)"
    by (rule extract_from_to_no_to)
next
  show "extract_from_to ''<name>'' ''</name>'' none
          (PatternSeeker_of (view_of ''Hello, <name>World</name>!''))
        = Inr (sub_cursor 13 5 (PatternSeeker_of (view_of ''Hello, <name>World</name>!'')),
               PatternSeeker_of (view_of ''Hello, <name>World</name>!''))"
    by (simp add: extract_from_to_def sv_find_def PatternSeeker_of_def view_of_def sv_text_def
        sv_substr_def move_to_def PatternSeeker_derived_def sub_cursor_def Let_def)
next
  show "to_string (sub_cursor 13 5 (PatternSeeker_of (view_of ''Hello, <name>World</name>!''))) = ''World''"
    by (simp add: to_string_def sub_cursor_def PatternSeeker_of_def view_of_def sv_text_def)
qed

theorem extract_from_to_between_witness:
  "sv_ok (m_str (PatternSeeker_of (view_of ''a[b]c'')))
   \<and> first_from ''['' (to_string (PatternSeeker_of (view_of ''a[b]c''))) 0 1
   \<and> first_from '']'' (to_string (PatternSeeker_of (view_of ''a[b]c''))) (1 + length ''['') 3
   \<and> extract_from_to ''['' '']'' move_after (PatternSeeker_of (view_of ''a[b]c''))
       = Inr (sub_cursor 2 1 (PatternSeeker_of (view_of ''a[b]c'')),
              advanced 4 (PatternSeeker_of (view_of ''a[b]c'')))
   \<and> to_string (sub_cursor 2 1 (PatternSeeker_of (view_of ''a[b]c''))) = ''b''
   \<and> absent_from ''('' (to_string (PatternSeeker_of (view_of ''a[b]c''))) 0
   \<and> extract_from_to ''('' '']'' move_after (PatternSeeker_of (view_of ''a[b]c''))
       = Inr (PatternSeeker_empty, PatternSeeker_of (view_of ''a[b]c''))
   \<and> absent_from ''['' (to_string (PatternSeeker_of (view_of ''a[b]c''))) (1 + length ''['')
   \<and> extract_from_to ''['' ''['' move_after (PatternSeeker_of (view_of ''a[b]c''))
       = Inr (PatternSeeker_empty, PatternSeeker_of (view_of ''a[b]c''))"
proof -
  let ?c = "PatternSeeker_of (view_of ''a[b]c'')"
  have ok: "sv_ok (m_str ?c)"
    by (simp add: sv_ok_def PatternSeeker_of_def view_of_def)
  have t: "to_string ?c = sv_text (m_str ?c)"
    by (simp add: to_string_def)
  have f1: "first_from ''['' (to_string ?c) 0 1"
    unfolding t by (rule sv_find_Some_first [OF ok])
      (simp add: sv_find_def PatternSeeker_of_def view_of_def sv_text_def)
  have f2: "first_from '']'' (to_string ?c) (1 + length ''['') 3"
    unfolding t by (rule sv_find_Some_first [OF ok])
      (simp add: sv_find_def PatternSeeker_of_def view_of_def sv_text_def)
  have a1: "absent_from ''('' (to_string ?c) 0"
    unfolding t by (rule sv_find_None_absent [OF ok])
      (simp_all add: sv_find_def PatternSeeker_of_def view_of_def sv_text_def)
  have a2: "absent_from ''['' (to_string ?c) (1 + length ''['')"
    unfolding t by (rule sv_find_None_absent [OF ok])
      (simp_all add: sv_find_def PatternSeeker_of_def view_of_def sv_text_def)
  have s: "to_string (sub_cursor 2 1 ?c) = ''b''"
    by (simp add: to_string_def sub_cursor_def PatternSeeker_of_def view_of_def sv_text_def)
  note th1 = extract_from_to_between [OF ok, of "''[''" 1 "'']''" 3 move_after]
  note th2 = extract_from_to_between [OF ok, of "''(''" 1 "'']''" 3 move_after]
  note th3 = extract_from_to_between [OF ok, of "''[''" 1 "''[''" 3 move_after]
  have r1: "extract_from_to ''['' '']'' move_after ?c = Inr (sub_cursor 2 1 ?c, advanced 4 ?c)"
    using th1 f1 f2 by (simp add: moved_def eval_nat_numeral)
  have r2: "extract_from_to ''('' '']'' move_after ?c = Inr (PatternSeeker_empty, ?c)"
    using th2 a1 by simp
  have r3: "extract_from_to ''['' ''['' move_after ?c = Inr (PatternSeeker_empty, ?c)"
    using th3 f1 a2 by simp
  show ?thesis
    using ok f1 f2 a1 a2 s r1 r2 r3 by simp
qed

section \<open>Balanced extraction\<close>

lemma find_at_char_absent: "ch \<notin> set t \<Longrightarrow> find_at [ch] t i = None"
  by (induction t arbitrary: i) auto

lemma find_at_char_first:
  "ch \<notin> set pre \<Longrightarrow> find_at [ch] (pre @ ch # w) i = Some (i + length pre)"
  by (induction pre arbitrary: i) auto

lemma nesting_Nil [simp]: "nesting st en [] = 1"
  by (simp add: nesting_def)

lemma nesting_Cons:
  "nesting st en (ch # w)
     = nesting st en w + (if ch = st then 1 else 0) - (if ch = en then 1 else 0)"
  by (simp add: nesting_def)

lemma nesting_same [simp]: "nesting st st w = 1"
  by (simp add: nesting_def)

lemma counter_zero:
  "0 \<le> x \<Longrightarrow> x < 2 ^ 32 \<Longrightarrow> ((word_of_int x :: 32 word) = 0) = (x = 0)"
proof
  assume b: "0 \<le> x" "x < 2 ^ 32" and z: "(word_of_int x :: 32 word) = 0"
  from z have "(2 :: int) ^ 32 dvd x"
    by (simp add: word_of_int_eq_0_iff)
  then show "x = 0" using b by (auto dest: zdvd_imp_le)
next
  assume "x = 0"
  then show "(word_of_int x :: 32 word) = 0" by simp
qed

lemma depth_loop_Cons:
  assumes "1 \<le> d" "d < 2 ^ 32"
  shows "depth_loop st en (ch # rest) i (word_of_int d) =
     (if ch = st then depth_loop st en rest (Suc i) (word_of_int (d + 1))
      else if ch = en then
        (if d = 1 then (Suc i, 0) else depth_loop st en rest (Suc i) (word_of_int (d - 1)))
      else depth_loop st en rest (Suc i) (word_of_int d))"
proof -
  have i: "(word_of_int d :: 32 word) + 1 = word_of_int (d + 1)" by simp
  have m: "(word_of_int d :: 32 word) - 1 = word_of_int (d - 1)" by simp
  have z: "((word_of_int (d - 1) :: 32 word) = 0) = (d = 1)"
    using assms counter_zero [of "d - 1"] by auto
  show ?thesis
    unfolding depth_loop.simps i m z by simp
qed

lemma depth_loop_same:
  "1 \<le> d \<Longrightarrow> d + int (length w) < 2 ^ 32 \<Longrightarrow>
   snd (depth_loop st st w i (word_of_int d)) \<noteq> 0"
proof (induction w arbitrary: i d)
  case Nil
  then show ?case using counter_zero [of d] by simp
next
  case (Cons ch rest)
  have c: "depth_loop st st (ch # rest) i (word_of_int d)
      = depth_loop st st rest (Suc i) (word_of_int (if ch = st then d + 1 else d))"
    using Cons.prems by (subst depth_loop_Cons) auto
  show ?case
    unfolding c using Cons.prems by (intro Cons.IH) auto
qed

lemma depth_loop_balanced:
  assumes "st \<noteq> en" "1 \<le> d" "d + int (length w) < 2 ^ 32" "k \<le> length w"
    and "d - 1 + nesting st en (take k w) = 0"
    and "\<forall>j < k. d - 1 + nesting st en (take j w) \<noteq> 0"
  shows "depth_loop st en w i (word_of_int d) = (i + k, 0)"
  using assms(2-)
proof (induction w arbitrary: i d k)
  case Nil
  then show ?case by simp
next
  case (Cons ch rest)
  from Cons.prems(1,4) obtain k' where k: "k = Suc k'"
    by (cases k) auto
  have step: "\<forall>j < k'. d - 1 + nesting st en (take (Suc j) (ch # rest)) \<noteq> 0"
    using Cons.prems(5) k by auto
  have zero: "d - 1 + nesting st en (take (Suc k') (ch # rest)) = 0"
    using Cons.prems(4) k by simp
  have kl: "k' \<le> length rest" using Cons.prems(3) k by simp
  have dl: "d < 2 ^ 32" using Cons.prems(2) by simp
  note unfold = depth_loop_Cons [OF Cons.prems(1) dl]
  show ?case
  proof (cases "ch = st")
    case True
    have "depth_loop st en rest (Suc i) (word_of_int (d + 1)) = (Suc i + k', 0)"
    proof (rule Cons.IH)
      show "1 \<le> d + 1" using Cons.prems(1) by simp
      show "d + 1 + int (length rest) < 2 ^ 32" using Cons.prems(2) by simp
      show "k' \<le> length rest" by (rule kl)
      show "d + 1 - 1 + nesting st en (take k' rest) = 0"
        using zero True assms(1) by (simp add: nesting_Cons)
      show "\<forall>j < k'. d + 1 - 1 + nesting st en (take j rest) \<noteq> 0"
        using step True assms(1) by (simp add: nesting_Cons)
    qed
    with True k show ?thesis unfolding unfold by simp
  next
    case False
    note nst = False
    show ?thesis
    proof (cases "ch = en")
      case True
      show ?thesis
      proof (cases "d = 1")
        case z: True
        have "k' = 0"
        proof (rule ccontr)
          assume "k' \<noteq> 0"
          then have "1 < k" using k by simp
          with Cons.prems(5) have "d - 1 + nesting st en (take 1 (ch # rest)) \<noteq> 0" by blast
          with z True nst show False by (simp add: nesting_Cons)
        qed
        with z True nst k show ?thesis unfolding unfold by simp
      next
        case nz: False
        have "depth_loop st en rest (Suc i) (word_of_int (d - 1)) = (Suc i + k', 0)"
        proof (rule Cons.IH)
          show "1 \<le> d - 1" using Cons.prems(1) nz by simp
          show "d - 1 + int (length rest) < 2 ^ 32" using Cons.prems(2) by simp
          show "k' \<le> length rest" by (rule kl)
          show "d - 1 - 1 + nesting st en (take k' rest) = 0"
            using zero True nst by (simp add: nesting_Cons)
          show "\<forall>j < k'. d - 1 - 1 + nesting st en (take j rest) \<noteq> 0"
          proof (intro allI impI)
            fix j assume "j < k'"
            with step have "d - 1 + nesting st en (take (Suc j) (ch # rest)) \<noteq> 0" by blast
            with True nst show "d - 1 - 1 + nesting st en (take j rest) \<noteq> 0"
              by (simp add: nesting_Cons)
          qed
        qed
        with True nst nz k show ?thesis unfolding unfold by simp
      qed
    next
      case False
      have "depth_loop st en rest (Suc i) (word_of_int d) = (Suc i + k', 0)"
      proof (rule Cons.IH)
        show "1 \<le> d" by (rule Cons.prems(1))
        show "d + int (length rest) < 2 ^ 32" using Cons.prems(2) by simp
        show "k' \<le> length rest" by (rule kl)
        show "d - 1 + nesting st en (take k' rest) = 0"
          using zero False nst by (simp add: nesting_Cons)
        show "\<forall>j < k'. d - 1 + nesting st en (take j rest) \<noteq> 0"
          using step False nst by (simp add: nesting_Cons)
      qed
      with False nst k show ?thesis unfolding unfold by simp
    qed
  qed
qed

lemma depth_loop_unbalanced:
  assumes "st \<noteq> en" "1 \<le> d" "d + int (length w) < 2 ^ 32"
    and "\<forall>j \<le> length w. d - 1 + nesting st en (take j w) \<noteq> 0"
  shows "snd (depth_loop st en w i (word_of_int d)) \<noteq> 0"
  using assms(2-)
proof (induction w arbitrary: i d)
  case Nil
  then show ?case using counter_zero [of d] by simp
next
  case (Cons ch rest)
  have step: "\<forall>j \<le> length rest. d - 1 + nesting st en (take (Suc j) (ch # rest)) \<noteq> 0"
    using Cons.prems(3) by auto
  have dl: "d < 2 ^ 32" using Cons.prems(2) by simp
  note unfold = depth_loop_Cons [OF Cons.prems(1) dl]
  show ?case
  proof (cases "ch = st")
    case True
    have "snd (depth_loop st en rest (Suc i) (word_of_int (d + 1))) \<noteq> 0"
    proof (rule Cons.IH)
      show "1 \<le> d + 1" using Cons.prems(1) by simp
      show "d + 1 + int (length rest) < 2 ^ 32" using Cons.prems(2) by simp
      show "\<forall>j \<le> length rest. d + 1 - 1 + nesting st en (take j rest) \<noteq> 0"
        using step True assms(1) by (simp add: nesting_Cons)
    qed
    with True show ?thesis unfolding unfold by simp
  next
    case False
    note nst = False
    show ?thesis
    proof (cases "ch = en")
      case True
      have "1 \<le> length (ch # rest)" by simp
      with Cons.prems(3) have "d - 1 + nesting st en (take 1 (ch # rest)) \<noteq> 0" by blast
      with True nst have nz: "d \<noteq> 1" by (simp add: nesting_Cons)
      have "snd (depth_loop st en rest (Suc i) (word_of_int (d - 1))) \<noteq> 0"
      proof (rule Cons.IH)
        show "1 \<le> d - 1" using Cons.prems(1) nz by simp
        show "d - 1 + int (length rest) < 2 ^ 32" using Cons.prems(2) by simp
        show "\<forall>j \<le> length rest. d - 1 - 1 + nesting st en (take j rest) \<noteq> 0"
        proof (intro allI impI)
          fix j assume "j \<le> length rest"
          with step have "d - 1 + nesting st en (take (Suc j) (ch # rest)) \<noteq> 0" by blast
          with True nst show "d - 1 - 1 + nesting st en (take j rest) \<noteq> 0"
            by (simp add: nesting_Cons)
        qed
      qed
      with True nst nz show ?thesis unfolding unfold by simp
    next
      case False
      have "snd (depth_loop st en rest (Suc i) (word_of_int d)) \<noteq> 0"
      proof (rule Cons.IH)
        show "1 \<le> d" by (rule Cons.prems(1))
        show "d + int (length rest) < 2 ^ 32" using Cons.prems(2) by simp
        show "\<forall>j \<le> length rest. d - 1 + nesting st en (take j rest) \<noteq> 0"
          using step False nst by (simp add: nesting_Cons)
      qed
      with False nst show ?thesis unfolding unfold by simp
    qed
  qed
qed

lemma depth_loop_stops_at_end:
  "depth_loop st en w i (word_of_int d) = (j, 0) \<Longrightarrow> 1 \<le> d \<Longrightarrow>
   d + int (length w) < 2 ^ 32 \<Longrightarrow>
     i < j \<and> j - i \<le> length w \<and> w ! (j - i - 1) = en \<and> en \<noteq> st"
proof (induction w arbitrary: i d)
  case Nil
  then show ?case using counter_zero [of d] by simp
next
  case (Cons ch rest)
  have dl: "d < 2 ^ 32" using Cons.prems(3) by simp
  note unfold = depth_loop_Cons [OF Cons.prems(2) dl]
  show ?case
  proof (cases "ch = en \<and> ch \<noteq> st \<and> d = 1")
    case True
    with Cons.prems(1) show ?thesis unfolding unfold by auto
  next
    case False
    define d' where "d' = (if ch = st then d + 1 else if ch = en then d - 1 else d)"
    have r: "depth_loop st en rest (Suc i) (word_of_int d') = (j, 0)"
      using Cons.prems(1) False unfolding unfold d'_def by (auto split: if_splits)
    have "1 \<le> d'" "d' + int (length rest) < 2 ^ 32"
      using Cons.prems(2,3) False by (auto simp: d'_def)
    from Cons.IH [OF r this]
    have "Suc i < j \<and> j - Suc i \<le> length rest \<and> rest ! (j - Suc i - 1) = en \<and> en \<noteq> st" .
    then have "i < j \<and> j - i \<le> length (ch # rest) \<and> j - i - 1 = Suc (j - Suc i - 1)
        \<and> rest ! (j - Suc i - 1) = en \<and> en \<noteq> st" by auto
    then show ?thesis by simp
  qed
qed

lemma extract_chars_absent:
  assumes "start \<notin> set (to_string c)"
  shows "extract_chars start en mode c = Inr (PatternSeeker_empty, c)"
  using assms by (simp add: extract_chars_def sv_find_def find_at_char_absent to_string_def)

lemma view_bound:
  assumes "size_of c < 2 ^ 31" "to_string c = pre @ start # w"
  shows "1 + int (length w) < 2 ^ 32"
proof -
  have "length (to_string c) \<le> size_of c"
    using length_sv_text_le [of "m_str c"] by (simp add: to_string_def size_of_def)
  with assms have "length w < 2 ^ 31" by simp
  then have "int (length w) < 2 ^ 31" by (simp add: of_nat_less_numeral_power_cancel_iff)
  then show ?thesis by simp
qed

lemma extract_chars_balanced:
  assumes small: "size_of c < 2 ^ 31"
    and t: "to_string c = pre @ start # w" and np: "start \<notin> set pre"
    and kl: "k \<le> length w" and z: "nesting start en (take k w) = 0"
    and nz: "\<forall>j < k. nesting start en (take j w) \<noteq> 0"
  shows "extract_chars start en mode c
           = Inr (sub_cursor (length pre) (k + 1) c, moved mode (length pre) (length pre + 1 + k) c)"
proof -
  let ?e = "Suc (length pre + k)"
  have ne: "start \<noteq> en" using z by auto
  have f: "sv_find [start] 0 (m_str c) = Some (length pre)"
    using t np find_at_char_first [of start pre w 0] by (simp add: sv_find_def to_string_def)
  have d: "drop (Suc (length pre)) (sv_text (m_str c)) = w"
    using t by (simp add: to_string_def)
  have "depth_loop start en w (Suc (length pre)) (word_of_int 1) = (Suc (length pre) + k, 0)"
    using ne kl z nz view_bound [OF small t] by (intro depth_loop_balanced) simp_all
  then have l: "depth_loop start en w (Suc (length pre)) 1 = (?e, 0)" by simp
  have "length (to_string c) \<le> size_of c"
    using length_sv_text_le [of "m_str c"] by (simp add: to_string_def size_of_def)
  with t kl have b: "?e \<le> size_of c" by simp
  have m: "move_to mode (length pre) ?e c = Inr (moved mode (length pre) ?e c)"
    using b by (intro move_to_eq) simp_all
  have o: "m_originalPointer (moved mode (length pre) ?e c) = m_originalPointer c"
    by (cases mode) (simp_all add: moved_def advanced_def)
  have "extract_chars start en mode c
      = and_then (sv_substr (length pre) (Suc k) (m_str c)) (\<lambda>substr.
          Inr (PatternSeeker_derived substr (m_originalPointer c), moved mode (length pre) ?e c))"
    by (simp add: extract_chars_def f d l m o)
  also have "\<dots> = Inr (sub_cursor (length pre) (min (Suc k) (size_of c - length pre)) c,
                     moved mode (length pre) ?e c)"
    using b by (intro sv_substr_eq) simp
  also have "min (Suc k) (size_of c - length pre) = Suc k"
    using b by simp
  finally show ?thesis by simp
qed

lemma extract_chars_unbalanced:
  assumes small: "size_of c < 2 ^ 31"
    and t: "to_string c = pre @ start # w" and np: "start \<notin> set pre"
    and nz: "\<forall>j \<le> length w. nesting start en (take j w) \<noteq> 0"
  shows "extract_chars start en mode c = Inr (PatternSeeker_empty, c)"
proof -
  have f: "sv_find [start] 0 (m_str c) = Some (length pre)"
    using t np find_at_char_first [of start pre w 0] by (simp add: sv_find_def to_string_def)
  have d: "drop (Suc (length pre)) (sv_text (m_str c)) = w"
    using t by (simp add: to_string_def)
  have "snd (depth_loop start en w (Suc (length pre)) (word_of_int 1)) \<noteq> 0"
  proof (cases "start = en")
    case True
    with depth_loop_same [of 1 w start "Suc (length pre)"] view_bound [OF small t]
    show ?thesis by simp
  next
    case False
    then show ?thesis
      using nz view_bound [OF small t] by (intro depth_loop_unbalanced) simp_all
  qed
  then have "snd (depth_loop start en w (Suc (length pre)) 1) \<noteq> 0" by simp
  then show ?thesis
    by (cases "depth_loop start en w (Suc (length pre)) 1") (simp add: extract_chars_def f d)
qed

lemma balanced_ends_with_end:
  assumes b: "1 + int (length w) < 2 ^ 32"
    and kl: "k \<le> length w" and z: "nesting start en (take k w) = 0"
    and nz: "\<forall>j < k. nesting start en (take j w) \<noteq> 0"
  shows "0 < k \<and> w ! (k - 1) = en"
proof -
  have ne: "start \<noteq> en" using z by auto
  have "depth_loop start en w 0 (word_of_int 1) = (0 + k, 0)"
    using ne kl z nz b by (intro depth_loop_balanced) simp_all
  from depth_loop_stops_at_end [OF this] b show ?thesis by simp
qed


text \<open>
  Claim C5. For every cursor \<open>c\<close> with a view shorter than \<open>2^31\<close> characters (where the
  counter \<^verbatim>\<open>int depth\<close> cannot overflow) and characters \<open>start\<close>, \<open>en\<close>: let the view be \<open>pre\<close>,
  the first \<open>start\<close>, then \<open>w\<close>. The depth after the first \<open>start\<close> and the first \<open>j\<close> characters
  of \<open>w\<close> is \<open>nesting start en (take j w)\<close>. When \<open>k\<close> is the first length at which the depth
  is zero, \<open>extract(start, end, mode)\<close> returns the slice from that first \<open>start\<close> through
  the \<open>k\<close>-th character of \<open>w\<close>, which is an \<open>en\<close>, and moves the receiver as the mode says.
  When the depth is never zero, or \<open>start\<close> does not occur, the result is the empty
  sentinel and the receiver is unchanged. On \<^verbatim>\<open>{"a": {"b": 1}}\<close> the result for the two
  braces is the whole text.
\<close>

theorem extract_chars_nesting:
  "(size_of c < 2 ^ 31
      \<and> to_string c = pre @ start # w \<and> start \<notin> set pre \<and> k \<le> length w
      \<and> nesting start en (take k w) = 0 \<and> (\<forall>j < k. nesting start en (take j w) \<noteq> 0) \<longrightarrow>
        extract_chars start en mode c
          = Inr (sub_cursor (length pre) (k + 1) c, moved mode (length pre) (length pre + 1 + k) c)
        \<and> to_string (sub_cursor (length pre) (k + 1) c) = start # take k w
        \<and> 0 < k \<and> w ! (k - 1) = en)
   \<and> (size_of c < 2 ^ 31
      \<and> to_string c = pre @ start # w \<and> start \<notin> set pre
      \<and> (\<forall>j \<le> length w. nesting start en (take j w) \<noteq> 0) \<longrightarrow>
        extract_chars start en mode c = Inr (PatternSeeker_empty, c))
   \<and> (start \<notin> set (to_string c) \<longrightarrow>
        extract_chars start en mode c = Inr (PatternSeeker_empty, c))
   \<and> extract_chars CHR ''{'' CHR ''}'' none (PatternSeeker_of (view_of ''{\"a\": {\"b\": 1}}''))
        = Inr (sub_cursor 0 15 (PatternSeeker_of (view_of ''{\"a\": {\"b\": 1}}'')),
               PatternSeeker_of (view_of ''{\"a\": {\"b\": 1}}''))
   \<and> to_string (sub_cursor 0 15 (PatternSeeker_of (view_of ''{\"a\": {\"b\": 1}}'')))
        = ''{\"a\": {\"b\": 1}}''"
proof (intro conjI impI)
  assume h: "size_of c < 2 ^ 31
      \<and> to_string c = pre @ start # w \<and> start \<notin> set pre \<and> k \<le> length w
      \<and> nesting start en (take k w) = 0 \<and> (\<forall>j < k. nesting start en (take j w) \<noteq> 0)"
  then have small: "size_of c < 2 ^ 31" and t: "to_string c = pre @ start # w" and np: "start \<notin> set pre" and kl: "k \<le> length w"
    and z: "nesting start en (take k w) = 0" and nz: "\<forall>j < k. nesting start en (take j w) \<noteq> 0"
    by simp_all
  show "extract_chars start en mode c
          = Inr (sub_cursor (length pre) (k + 1) c, moved mode (length pre) (length pre + 1 + k) c)"
    using small t np kl z nz by (rule extract_chars_balanced)
  have "length (to_string c) \<le> size_of c"
    using length_sv_text_le [of "m_str c"] by (simp add: to_string_def size_of_def)
  with t kl have "length pre + (k + 1) \<le> size_of c" by simp
  then have "to_string (sub_cursor (length pre) (k + 1) c)
      = take (k + 1) (drop (length pre) (to_string c))"
    by (rule to_string_sub_cursor)
  with t show "to_string (sub_cursor (length pre) (k + 1) c) = start # take k w" by simp
  from balanced_ends_with_end [OF view_bound [OF small t] kl z nz] show "0 < k" "w ! (k - 1) = en" by simp_all
next
  assume "size_of c < 2 ^ 31
      \<and> to_string c = pre @ start # w \<and> start \<notin> set pre
      \<and> (\<forall>j \<le> length w. nesting start en (take j w) \<noteq> 0)"
  then have "size_of c < 2 ^ 31" "to_string c = pre @ start # w" "start \<notin> set pre"
    "\<forall>j \<le> length w. nesting start en (take j w) \<noteq> 0" by simp_all
  then show "extract_chars start en mode c = Inr (PatternSeeker_empty, c)"
    by (rule extract_chars_unbalanced)
next
  assume "start \<notin> set (to_string c)"
  then show "extract_chars start en mode c = Inr (PatternSeeker_empty, c)"
    by (rule extract_chars_absent)
next
  show "extract_chars CHR ''{'' CHR ''}'' none (PatternSeeker_of (view_of ''{\"a\": {\"b\": 1}}''))
        = Inr (sub_cursor 0 15 (PatternSeeker_of (view_of ''{\"a\": {\"b\": 1}}'')),
               PatternSeeker_of (view_of ''{\"a\": {\"b\": 1}}''))"
    by (simp add: extract_chars_def sv_find_def PatternSeeker_of_def view_of_def sv_text_def
        sv_substr_def move_to_def PatternSeeker_derived_def sub_cursor_def)
next
  show "to_string (sub_cursor 0 15 (PatternSeeker_of (view_of ''{\"a\": {\"b\": 1}}'')))
        = ''{\"a\": {\"b\": 1}}''"
    by (simp add: to_string_def sub_cursor_def PatternSeeker_of_def view_of_def sv_text_def)
qed

theorem extract_chars_nesting_witness:
  "size_of (PatternSeeker_of (view_of ''x(a(b)c)y'')) < 2 ^ 31
   \<and> size_of (PatternSeeker_of (view_of ''x((a)'')) < 2 ^ 31
   \<and> to_string (PatternSeeker_of (view_of ''x(a(b)c)y'')) = ''x'' @ CHR ''('' # ''a(b)c)y''
   \<and> CHR ''('' \<notin> set ''x'' \<and> 6 \<le> length ''a(b)c)y''
   \<and> nesting CHR ''('' CHR '')'' (take 6 ''a(b)c)y'') = 0
   \<and> map (\<lambda>j. nesting CHR ''('' CHR '')'' (take j ''a(b)c)y'')) [0, 1, 2, 3, 4, 5] = [1, 1, 2, 2, 1, 1]
   \<and> extract_chars CHR ''('' CHR '')'' move_after (PatternSeeker_of (view_of ''x(a(b)c)y''))
       = Inr (sub_cursor 1 7 (PatternSeeker_of (view_of ''x(a(b)c)y'')),
              advanced 8 (PatternSeeker_of (view_of ''x(a(b)c)y'')))
   \<and> to_string (sub_cursor 1 7 (PatternSeeker_of (view_of ''x(a(b)c)y''))) = ''(a(b)c)''
   \<and> to_string (PatternSeeker_of (view_of ''x((a)'')) = ''x'' @ CHR ''('' # ''(a)''
   \<and> map (\<lambda>j. nesting CHR ''('' CHR '')'' (take j ''(a)'')) [0, 1, 2, 3] = [1, 2, 2, 1]
   \<and> extract_chars CHR ''('' CHR '')'' move_after (PatternSeeker_of (view_of ''x((a)''))
       = Inr (PatternSeeker_empty, PatternSeeker_of (view_of ''x((a)''))
   \<and> CHR ''['' \<notin> set (to_string (PatternSeeker_of (view_of ''x((a)'')))
   \<and> extract_chars CHR ''['' CHR '']'' move_after (PatternSeeker_of (view_of ''x((a)''))
       = Inr (PatternSeeker_empty, PatternSeeker_of (view_of ''x((a)''))"
proof -
  let ?c = "PatternSeeker_of (view_of ''x(a(b)c)y'')"
  let ?d = "PatternSeeker_of (view_of ''x((a)'')"
  have sm: "size_of ?c < 2 ^ 31" "size_of ?d < 2 ^ 31"
    by (simp_all add: size_of_def PatternSeeker_of_def view_of_def)
  have t: "to_string ?c = ''x'' @ CHR ''('' # ''a(b)c)y''"
    by (simp add: to_string_def PatternSeeker_of_def view_of_def sv_text_def)
  have z: "nesting CHR ''('' CHR '')'' (take 6 ''a(b)c)y'') = 0"
    by (simp add: nesting_def)
  have nz: "\<forall>j < 6. nesting CHR ''('' CHR '')'' (take j ''a(b)c)y'') \<noteq> 0"
    by (simp add: nesting_def eval_nat_numeral All_less_Suc)
  have s: "to_string (sub_cursor 1 7 ?c) = ''(a(b)c)''"
    by (simp add: to_string_def sub_cursor_def PatternSeeker_of_def view_of_def sv_text_def)
  have t2: "to_string ?d = ''x'' @ CHR ''('' # ''(a)''"
    by (simp add: to_string_def PatternSeeker_of_def view_of_def sv_text_def)
  have nz2: "\<forall>j \<le> length ''(a)''. nesting CHR ''('' CHR '')'' (take j ''(a)'') \<noteq> 0"
    by (auto simp: nesting_def le_Suc_eq)
  have ab: "CHR ''['' \<notin> set (to_string ?d)"
    by (simp add: t2)
  note th1 = extract_chars_nesting [of ?c "''x''" "CHR ''(''" "''a(b)c)y''" 6 "CHR '')''" move_after]
  note th2 = extract_chars_nesting [of ?d "''x''" "CHR ''(''" "''(a)''" 0 "CHR '')''" move_after]
  note th3 = extract_chars_nesting [of ?d "''x''" "CHR ''[''" "''(a)''" 0 "CHR '']''" move_after]
  have r1: "extract_chars CHR ''('' CHR '')'' move_after ?c = Inr (sub_cursor 1 7 ?c, advanced 8 ?c)"
    using th1 sm t z nz by (simp add: moved_def)
  have r2: "extract_chars CHR ''('' CHR '')'' move_after ?d = Inr (PatternSeeker_empty, ?d)"
    using th2 sm t2 nz2 by simp
  have r3: "extract_chars CHR ''['' CHR '']'' move_after ?d = Inr (PatternSeeker_empty, ?d)"
    using th3 ab by simp
  have q1: "map (\<lambda>j. nesting CHR ''('' CHR '')'' (take j ''a(b)c)y'')) [0, 1, 2, 3, 4, 5]
      = [1, 1, 2, 2, 1, 1]"
    by (simp add: nesting_def)
  have q2: "map (\<lambda>j. nesting CHR ''('' CHR '')'' (take j ''(a)'')) [0, 1, 2, 3] = [1, 2, 2, 1]"
    by (simp add: nesting_def)
  show ?thesis
    using sm t z q1 s t2 q2 ab r1 r2 r3 by simp
qed

section \<open>Operations that work on a copy\<close>

lemma advanced_advanced: "advanced m (advanced n c) = advanced (n + m) c"
  by (simp add: advanced_def sub_cursor_def size_of_def add.assoc)

lemma moved_origin [simp]: "m_originalPointer (moved mode a b c) = m_originalPointer c"
  by (cases mode) (simp_all add: moved_def advanced_def)

lemma expect_eq:
  "expect s c = Inr (startsWith s c, if startsWith s c then advanced (length s) c else c)"
proof (cases "startsWith s c")
  case True
  then have "prefix s (sv_text (m_str c))"
    by (simp add: startsWith_def sv_starts_with_def)
  then have "length s \<le> length (sv_text (m_str c))"
    by (rule prefix_length_le)
  then have "length s \<le> size_of c"
    using length_sv_text_le [of "m_str c"] by (simp add: size_of_def)
  with True show ?thesis
    by (simp add: expect_def startsWith_def skip_eq)
next
  case False
  then show ?thesis by (simp add: expect_def startsWith_def)
qed

lemma to_eq:
  "to s mode c =
     (case sv_find s 0 (m_str c) of
        None \<Rightarrow> Inr (False, c)
      | Some pos \<Rightarrow> Inr (True, moved mode pos (pos + length s) c))"
proof (cases "sv_find s 0 (m_str c)")
  case None
  then show ?thesis by (simp add: to_def)
next
  case (Some pos)
  from sv_find_bound [OF Some] have "pos + length s \<le> size_of c" by (simp add: size_of_def)
  then show ?thesis
    using Some by (cases mode) (simp_all add: to_def moved_def skip_eq)
qed

lemma extract_to_none:
  "extract_to s none c =
     (case sv_find s 0 (m_str c) of
        None \<Rightarrow> Inr (PatternSeeker_empty, c)
      | Some e \<Rightarrow> Inr (sub_cursor 0 e c, c))"
proof (cases "sv_find s 0 (m_str c)")
  case None
  then show ?thesis by (simp add: extract_to_def)
next
  case (Some e)
  from sv_find_bound [OF Some] have b: "e \<le> size_of c" by (simp add: size_of_def)
  have "extract_to s none c
      = and_then (sv_substr 0 e (m_str c)) (\<lambda>substr.
          Inr (PatternSeeker_derived substr (m_originalPointer c), c))"
    using Some by (simp add: extract_to_def move_to_def)
  also have "\<dots> = Inr (sub_cursor 0 (min e (size_of c - 0)) c, c)"
    by (intro sv_substr_eq) simp
  finally show ?thesis using Some b by simp
qed

lemma find_first_of_at_bound:
  "find_first_of_at cs t i = Some k \<Longrightarrow> i \<le> k \<and> k < i + length t"
proof (induction t arbitrary: i)
  case Nil
  then show ?case by simp
next
  case (Cons a t)
  show ?case
  proof (cases "a \<in> set cs")
    case True
    with Cons.prems show ?thesis by simp
  next
    case False
    with Cons.prems have "find_first_of_at cs t (Suc i) = Some k" by simp
    from Cons.IH [OF this] show ?thesis by simp
  qed
qed

lemma extractUntilOneOf_none:
  "\<exists>r. extractUntilOneOf cs none c = Inr (r, c)"
proof (cases "sv_find_first_of cs (m_str c)")
  case None
  then show ?thesis by (simp add: extractUntilOneOf_def)
next
  case (Some e)
  have "extractUntilOneOf cs none c
      = and_then (sv_substr 0 e (m_str c)) (\<lambda>substr.
          Inr (PatternSeeker_derived substr (m_originalPointer c), c))"
    using Some by (simp add: extractUntilOneOf_def)
  also have "\<dots> = Inr (sub_cursor 0 (min e (size_of c - 0)) c, c)"
    by (intro sv_substr_eq) simp
  finally show ?thesis by blast
qed

lemma depth_loop_bound:
  "depth_loop st en w i d = (j, d') \<Longrightarrow> i \<le> j \<and> j \<le> i + length w"
proof (induction w arbitrary: i d)
  case Nil
  then show ?case by simp
next
  case (Cons ch rest)
  show ?case
  proof (cases "ch = st")
    case True
    with Cons.prems have "depth_loop st en rest (Suc i) (d + 1) = (j, d')" by simp
    from Cons.IH [OF this] show ?thesis by simp
  next
    case False
    note nst = False
    show ?thesis
    proof (cases "ch = en \<and> d - 1 = 0")
      case True
      with nst Cons.prems show ?thesis by auto
    next
      case False
      with nst Cons.prems
      have "depth_loop st en rest (Suc i) (if ch = en then d - 1 else d) = (j, d')"
        by (auto split: if_splits)
      from Cons.IH [OF this] show ?thesis by simp
    qed
  qed
qed

lemma extract_chars_none:
  "\<exists>r. extract_chars st en none c = Inr (r, c)"
proof (cases "sv_find [st] 0 (m_str c)")
  case None
  then show ?thesis by (simp add: extract_chars_def)
next
  case (Some s)
  from sv_find_bound [OF Some] have b: "s \<le> size_of c" by (simp add: size_of_def)
  obtain j d where l: "depth_loop st en (drop (Suc s) (sv_text (m_str c))) (Suc s) 1 = (j, d)"
    by (cases "depth_loop st en (drop (Suc s) (sv_text (m_str c))) (Suc s) 1") blast
  show ?thesis
  proof (cases "d = 0")
    case False
    then show ?thesis using Some l by (simp add: extract_chars_def)
  next
    case True
    have "extract_chars st en none c
      = and_then (sv_substr s (size_t_sub j s) (m_str c)) (\<lambda>substr.
          Inr (PatternSeeker_derived substr (m_originalPointer c), c))"
      using Some l True by (simp add: extract_chars_def move_to_def)
    also have "\<dots> = Inr (sub_cursor s (min (size_t_sub j s) (size_of c - s)) c, c)"
      using b by (intro sv_substr_eq)
    finally show ?thesis by blast
  qed
qed

lemma extract_from_to_none:
  "\<exists>r. extract_from_to f t none c = Inr (r, c)"
proof (cases "sv_find f 0 (m_str c)")
  case None
  then show ?thesis by (simp add: extract_from_to_def)
next
  case (Some i)
  note s1 = Some
  from sv_find_bound [OF Some] have b: "i + length f \<le> size_of c" by (simp add: size_of_def)
  show ?thesis
  proof (cases "sv_find t (i + length f) (m_str c)")
    case None
    then show ?thesis using s1 by (simp add: extract_from_to_def Let_def)
  next
    case (Some e)
    have "extract_from_to f t none c
      = and_then (sv_substr (i + length f) (size_t_sub e (i + length f)) (m_str c)) (\<lambda>substr.
          Inr (PatternSeeker_derived substr (m_originalPointer c), c))"
      using s1 Some by (simp add: extract_from_to_def move_to_def Let_def)
    also have "\<dots> = Inr (sub_cursor (i + length f)
                  (min (size_t_sub e (i + length f)) (size_of c - (i + length f))) c, c)"
      using b by (intro sv_substr_eq)
    finally show ?thesis by blast
  qed
qed

lemma skipWhiteSpaces_total: "\<exists>n. skipWhiteSpaces c = Inr (advanced n c)"
proof (induction c rule: skipWhiteSpaces.induct)
  case (1 p)
  show ?case
  proof (cases "sv_size (m_str p) \<noteq> 0 \<and> isspace (sv_mem (m_str p) ! sv_data (m_str p))")
    case False
    then have "skipWhiteSpaces p = Inr (advanced 0 p)"
      by (subst skipWhiteSpaces.simps) auto
    then show ?thesis by blast
  next
    case True
    then have le: "1 \<le> size_of p" by (simp add: size_of_def)
    then have r: "sv_remove_prefix 1 (m_str p) = Inr (m_str (advanced 1 p))"
      by (simp add: sv_remove_prefix_def advanced_def sub_cursor_def size_of_def)
    have e: "p\<lparr>m_str := m_str (advanced 1 p)\<rparr> = advanced 1 p"
      by (simp add: advanced_def sub_cursor_def)
    from "1.IH" [OF True r] obtain n where
      "skipWhiteSpaces (advanced 1 p) = Inr (advanced n (advanced 1 p))"
      unfolding e by blast
    then have "skipWhiteSpaces p = Inr (advanced (1 + n) p)"
      using True r e by (subst skipWhiteSpaces.simps) (simp add: advanced_advanced)
    then show ?thesis by blast
  qed
qed

lemma extract_to_none_total: "\<exists>r. extract_to s none c = Inr (r, c)"
  by (cases "sv_find s 0 (m_str c)") (simp_all add: extract_to_none)

lemma skipWhiteSpaces_Inr: "\<exists>c'. skipWhiteSpaces c = Inr c'"
  using skipWhiteSpaces_total [of c] by blast

lemma expect_Inr: "\<exists>b c'. expect s c = Inr (b, c')"
  by (simp add: expect_eq)

lemma getJsonProp_total: "\<exists>r. getJsonProp prop c = Inr (r, c)"
proof (cases "sv_find (DOUBLE_QUOTE @ prop @ DOUBLE_QUOTE) 0 (m_str c)")
  case None
  then show ?thesis by (simp add: getJsonProp_def to_eq)
next
  case (Some pos)
  then obtain c1 where t: "to (DOUBLE_QUOTE @ prop @ DOUBLE_QUOTE) move_after c = Inr (True, c1)"
    by (simp add: to_eq)
  obtain c2 where w1: "skipWhiteSpaces c1 = Inr c2"
    using skipWhiteSpaces_Inr by blast
  obtain colon c3 where x1: "expect '':'' c2 = Inr (colon, c3)"
    using expect_Inr by blast
  obtain c4 where w2: "skipWhiteSpaces c3 = Inr c4"
    using skipWhiteSpaces_Inr by blast
  obtain quoted c5 where x2: "expect DOUBLE_QUOTE c4 = Inr (quoted, c5)"
    using expect_Inr by blast
  obtain r1 where e1: "extract_to DOUBLE_QUOTE none c5 = Inr (r1, c5)"
    using extract_to_none_total by blast
  obtain r2 where e2: "extract_chars CHR ''['' CHR '']'' none c5 = Inr (r2, c5)"
    using extract_chars_none by blast
  obtain r3 where e3: "extract_chars CHR ''{'' CHR ''}'' none c5 = Inr (r3, c5)"
    using extract_chars_none by blast
  obtain r4 where e4:
    "extractUntilOneOf [CHR '','', CHR '' '', CHR 0x0D, CHR 0x0A, CHR '']'', CHR ''}''] none c5
       = Inr (r4, c5)"
    using extractUntilOneOf_none by blast
  have "getJsonProp prop c =
      (if \<not> colon then Inr (PatternSeeker_empty, c)
       else if quoted then Inr (r1, c)
       else if startsWith ''['' c5 then Inr (r2, c)
       else if startsWith ''{'' c5 then Inr (r3, c)
       else Inr (r4, c))"
    unfolding getJsonProp_def by (simp add: t w1 x1 w2 x2 e1 e2 e3 e4)
  then show ?thesis by auto
qed

lemma getXmlAttr_total: "\<exists>r. getXmlAttr prop c = Inr (r, c)"
proof (cases "sv_find prop 0 (m_str c)")
  case None
  then show ?thesis by (simp add: getXmlAttr_def to_eq)
next
  case (Some pos)
  then obtain c1 where t: "to prop move_after c = Inr (True, c1)"
    by (simp add: to_eq)
  obtain c2 where w1: "skipWhiteSpaces c1 = Inr c2"
    using skipWhiteSpaces_Inr by blast
  obtain eq c3 where x1: "expect ''='' c2 = Inr (eq, c3)"
    using expect_Inr by blast
  obtain c4 where w2: "skipWhiteSpaces c3 = Inr c4"
    using skipWhiteSpaces_Inr by blast
  obtain r where e: "extract_from_to DOUBLE_QUOTE DOUBLE_QUOTE none c4 = Inr (r, c4)"
    using extract_from_to_none by blast
  have "getXmlAttr prop c = Inr (r, c)"
    unfolding getXmlAttr_def by (simp add: t w1 x1 w2 e)
  then show ?thesis by blast
qed

text \<open>
  Claim C9. For every cursor \<open>c\<close> and every argument, \<open>getJsonProp\<close> and \<open>getXmlAttr\<close> return
  without a fault and hand the receiver back exactly as it was (they move a copy only),
  whether they find something or not; \<open>startsWith\<close> is a test on the text of the view
  and returns nothing but its answer.
\<close>

theorem readers_leave_receiver:
  "(\<exists>r. getJsonProp prop c = Inr (r, c))
   \<and> (\<exists>r. getXmlAttr attr c = Inr (r, c))
   \<and> startsWith s c = prefix s (to_string c)"
proof (intro conjI)
  show "\<exists>r. getJsonProp prop c = Inr (r, c)" by (rule getJsonProp_total)
  show "\<exists>r. getXmlAttr attr c = Inr (r, c)" by (rule getXmlAttr_total)
  show "startsWith s c = prefix s (to_string c)"
    by (simp add: startsWith_def sv_starts_with_def to_string_def)
qed

theorem readers_leave_receiver_witness:
  "(\<exists>r. getJsonProp ''age'' (PatternSeeker_of (view_of ''{\"age\": 30}''))
          = Inr (r, PatternSeeker_of (view_of ''{\"age\": 30}'')))
   \<and> (\<exists>r. getXmlAttr ''id'' (PatternSeeker_of (view_of ''{\"age\": 30}''))
          = Inr (r, PatternSeeker_of (view_of ''{\"age\": 30}'')))
   \<and> startsWith ''{'' (PatternSeeker_of (view_of ''{\"age\": 30}''))"
  using readers_leave_receiver
    [of "''age''" "PatternSeeker_of (view_of ''{\"age\": 30}'')" "''id''" "''{''"]
  by (simp add: to_string_def PatternSeeker_of_def view_of_def sv_text_def)

section \<open>XML attributes\<close>

lemma sub_cursor_advanced: "sub_cursor p n (advanced m c) = sub_cursor (m + p) n c"
  by (simp add: advanced_def sub_cursor_def add.assoc)

lemma sv_text_Cons:
  assumes "sv_ok (m_str c)" "size_of c \<noteq> 0"
  shows "to_string c = (sv_mem (m_str c) ! sv_data (m_str c)) # to_string (advanced 1 c)"
proof -
  let ?v = "m_str c"
  from assms have lt: "sv_data ?v < length (sv_mem ?v)"
    by (simp add: sv_ok_def size_of_def)
  obtain n where n: "sv_size ?v = Suc n"
    using assms(2) by (cases "sv_size ?v") (simp_all add: size_of_def)
  have "take (sv_size ?v) (drop (sv_data ?v) (sv_mem ?v))
      = (sv_mem ?v ! sv_data ?v) # take n (drop (Suc (sv_data ?v)) (sv_mem ?v))"
    using lt n by (simp add: Cons_nth_drop_Suc [symmetric])
  then show ?thesis
    using n by (simp add: to_string_def sv_text_def advanced_def sub_cursor_def size_of_def)
qed

lemma skipWhiteSpaces_eq:
  "sv_ok (m_str c) \<Longrightarrow>
   skipWhiteSpaces c = Inr (advanced (length (takeWhile isspace (to_string c))) c)"
proof (induction c rule: skipWhiteSpaces.induct)
  case (1 p)
  show ?case
  proof (cases "sv_size (m_str p) \<noteq> 0")
    case False
    then have "to_string p = []" by (simp add: to_string_def sv_text_def)
    with False show ?thesis by (subst skipWhiteSpaces.simps) simp
  next
    case True
    then have nz: "size_of p \<noteq> 0" by (simp add: size_of_def)
    let ?x = "sv_mem (m_str p) ! sv_data (m_str p)"
    have tx: "to_string p = ?x # to_string (advanced 1 p)"
      using "1.prems" nz by (rule sv_text_Cons)
    show ?thesis
    proof (cases "isspace ?x")
      case False
      then show ?thesis using tx by (subst skipWhiteSpaces.simps) simp
    next
      case sp: True
      have r: "sv_remove_prefix 1 (m_str p) = Inr (m_str (advanced 1 p))"
        using True by (simp add: sv_remove_prefix_def advanced_def sub_cursor_def size_of_def)
      have e: "p\<lparr>m_str := m_str (advanced 1 p)\<rparr> = advanced 1 p"
        by (simp add: advanced_def sub_cursor_def)
      have ok': "sv_ok (m_str (advanced 1 p))"
        using "1.prems" nz by (intro sv_ok_advanced) simp_all
      have "skipWhiteSpaces (advanced 1 p)
          = Inr (advanced (length (takeWhile isspace (to_string (advanced 1 p)))) (advanced 1 p))"
        using "1.IH" [OF conjI [OF True sp] r] ok' unfolding e by simp
      then have "skipWhiteSpaces p
          = Inr (advanced (1 + length (takeWhile isspace (to_string (advanced 1 p)))) p)"
        using True sp r e by (subst skipWhiteSpaces.simps) (simp add: advanced_advanced)
      moreover have "length (takeWhile isspace (to_string p))
          = 1 + length (takeWhile isspace (to_string (advanced 1 p)))"
        using sp by (subst tx) simp
      ultimately show ?thesis by simp
    qed
  qed
qed

lemma to_first:
  assumes "sv_ok (m_str c)" "first_from s (to_string c) 0 k"
  shows "to s mode c = Inr (True, moved mode k (k + length s) c)"
  using assms by (simp add: to_eq sv_find_first to_string_def)

lemma takeWhile_spaces:
  assumes "\<forall>x \<in> set ws. isspace x" "\<not> isspace q"
  shows "takeWhile isspace (ws @ q # rest) = ws"
  using assms by (simp add: takeWhile_append2)

lemma isspace_quote [simp]: "\<not> isspace (CHR 0x22)"
  by (simp add: isspace_def)

lemma quoted_first:
  "first_from DOUBLE_QUOTE (DOUBLE_QUOTE @ val @ DOUBLE_QUOTE @ rest) 0 0"
  by (simp add: first_from_def occurs_at_def DOUBLE_QUOTE_def)

lemma quoted_second:
  assumes "CHR 0x22 \<notin> set val"
  shows "first_from DOUBLE_QUOTE (DOUBLE_QUOTE @ val @ DOUBLE_QUOTE @ rest)
           (0 + length DOUBLE_QUOTE) (Suc (length val))"
proof -
  have "\<not> occurs_at [CHR 0x22] (CHR 0x22 # val @ CHR 0x22 # rest) j"
    if "j \<in> {Suc 0..<Suc (length val)}" for j
  proof -
    from that obtain i where j: "j = Suc i" and i: "i < length val"
      by (cases j) auto
    then have "drop j (CHR 0x22 # val @ CHR 0x22 # rest) = val ! i # drop (Suc i) val @ CHR 0x22 # rest"
      by (simp add: Cons_nth_drop_Suc)
    moreover have "val ! i \<noteq> CHR 0x22" using assms i by (metis nth_mem)
    ultimately show ?thesis by (simp add: occurs_at_def)
  qed
  then show ?thesis
    by (simp add: first_from_def occurs_at_def DOUBLE_QUOTE_def)
qed

lemma getXmlAttr_unsigned:
  assumes ok: "sv_ok (m_str c)"
    and t: "to_string c = pre @ name @ ws @ DOUBLE_QUOTE @ val @ DOUBLE_QUOTE @ rest"
    and first: "first_from name (to_string c) 0 (length pre)"
    and ws: "\<forall>x \<in> set ws. isspace x"
    and nq: "CHR 0x22 \<notin> set val"
  shows "getXmlAttr name c
           = Inr (sub_cursor (length pre + length name + length ws + 1) (length val) c, c)"
proof -
  let ?c1 = "advanced (length pre + length name) c"
  let ?c2 = "advanced (length ws) ?c1"
  have len: "length (to_string c) = size_of c"
    using ok by (simp add: to_string_def size_of_def length_sv_text)
  have t1: "to (name) move_after c = Inr (True, ?c1)"
    using to_first [OF ok first, of move_after] by (simp add: moved_def)
  have ok1: "sv_ok (m_str ?c1)"
    using ok len t by (intro sv_ok_advanced) (simp_all add: len [symmetric])
  have s1: "to_string ?c1 = ws @ DOUBLE_QUOTE @ val @ DOUBLE_QUOTE @ rest"
    using t by (simp add: to_string_advanced)
  have w1: "skipWhiteSpaces ?c1 = Inr ?c2"
    using ws by (simp add: skipWhiteSpaces_eq [OF ok1] s1 DOUBLE_QUOTE_def takeWhile_spaces)
  have s2: "to_string ?c2 = DOUBLE_QUOTE @ val @ DOUBLE_QUOTE @ rest"
    by (subst to_string_advanced) (simp add: s1)
  have "length ws \<le> length (to_string ?c1)" by (simp add: s1)
  also have "\<dots> \<le> size_of ?c1"
    using length_sv_text_le [of "m_str ?c1"] by (simp add: to_string_def size_of_def)
  finally have "length ws \<le> size_of ?c1" .
  with ok1 have ok2: "sv_ok (m_str ?c2)"
    by (rule sv_ok_advanced)
  have x: "expect ''='' ?c2 = Inr (False, ?c2)"
    by (simp add: expect_eq startsWith_def sv_starts_with_def to_string_def [symmetric] s2
        DOUBLE_QUOTE_def)
  have w2: "skipWhiteSpaces ?c2 = Inr ?c2"
    by (simp add: skipWhiteSpaces_eq [OF ok2] s2 DOUBLE_QUOTE_def)
  have e: "extract_from_to DOUBLE_QUOTE DOUBLE_QUOTE none ?c2
      = Inr (sub_cursor (0 + length DOUBLE_QUOTE) (Suc (length val) - (0 + length DOUBLE_QUOTE)) ?c2,
             moved none 0 (Suc (length val) + length DOUBLE_QUOTE) ?c2)"
    using ok2
  proof (rule extract_from_to_found)
    show "first_from DOUBLE_QUOTE (to_string ?c2) 0 0"
      unfolding s2 by (rule quoted_first)
    show "first_from DOUBLE_QUOTE (to_string ?c2) (0 + length DOUBLE_QUOTE) (Suc (length val))"
      unfolding s2 using nq by (rule quoted_second)
  qed
  then have e': "extract_from_to DOUBLE_QUOTE DOUBLE_QUOTE none ?c2
      = Inr (sub_cursor 1 (length val) ?c2, ?c2)"
    by (simp add: DOUBLE_QUOTE_def moved_def)
  have "getXmlAttr name c = Inr (sub_cursor 1 (length val) ?c2, c)"
    unfolding getXmlAttr_def
    by (simp add: t1 w1 x w2 e')
  then show ?thesis
    by (simp add: sub_cursor_advanced add.assoc)
qed

text \<open>
  Claim C10, as it is written, speaks of any view that contains the attribute name followed
  by white space and a quoted value. \<open>getXmlAttr\<close> takes the first occurrence of the name
  as a text, wherever it is: on \<^verbatim>\<open><div hidden "1" id "2">\<close>, which has no equals sign, the
  first \<^verbatim>\<open>id\<close> is inside \<^verbatim>\<open>hidden\<close>, and the value returned for \<^verbatim>\<open>id\<close> is \<^verbatim>\<open>1\<close>, not
  \<^verbatim>\<open>2\<close>.
\<close>

theorem getXmlAttr_later_occurrence_counterexample:
  "to_string (PatternSeeker_of (view_of ''<div hidden \"1\" id \"2\">''))
     = ''<div hidden \"1\" '' @ ''id'' @ '' '' @ DOUBLE_QUOTE @ ''2'' @ DOUBLE_QUOTE @ ''>''
   \<and> CHR ''='' \<notin> set (to_string (PatternSeeker_of (view_of ''<div hidden \"1\" id \"2\">'')))
   \<and> getXmlAttr ''id'' (PatternSeeker_of (view_of ''<div hidden \"1\" id \"2\">''))
       = Inr (sub_cursor 13 1 (PatternSeeker_of (view_of ''<div hidden \"1\" id \"2\">'')),
              PatternSeeker_of (view_of ''<div hidden \"1\" id \"2\">''))
   \<and> to_string (sub_cursor 13 1 (PatternSeeker_of (view_of ''<div hidden \"1\" id \"2\">''))) = ''1''"
  by (simp add: getXmlAttr_def to_def expect_def skip_def sv_remove_prefix_def
      sv_starts_with_def sv_find_def sv_text_def extract_from_to_def sv_substr_def move_to_def
      PatternSeeker_derived_def PatternSeeker_of_def view_of_def sub_cursor_def DOUBLE_QUOTE_def
      isspace_def skipWhiteSpaces.simps to_string_def Let_def)

text \<open>
  Claim C10, amended. \<open>getXmlAttr\<close> does not need an equals sign. For every cursor \<open>c\<close>
  whose view is \<open>pre\<close>, the attribute name at its first occurrence in the view (the one
  \<open>getXmlAttr\<close> finds), white space \<open>ws\<close> (possibly none), and a value \<open>val\<close> between double
  quotes, with no \<^verbatim>\<open>=\<close> between the name and the value, \<open>getXmlAttr name\<close> returns the
  cursor over \<open>val\<close> and leaves the receiver as it was.
\<close>

theorem getXmlAttr_without_equals:
  assumes "sv_ok (m_str c)"
    and "to_string c = pre @ name @ ws @ DOUBLE_QUOTE @ val @ DOUBLE_QUOTE @ rest"
    and "first_from name (to_string c) 0 (length pre)"
    and "\<forall>x \<in> set ws. isspace x"
    and "CHR 0x22 \<notin> set val"
  shows "getXmlAttr name c
           = Inr (sub_cursor (length pre + length name + length ws + 1) (length val) c, c)
         \<and> to_string (sub_cursor (length pre + length name + length ws + 1) (length val) c) = val"
proof
  show "getXmlAttr name c
           = Inr (sub_cursor (length pre + length name + length ws + 1) (length val) c, c)"
    using assms by (rule getXmlAttr_unsigned)
  have "length (to_string c) \<le> size_of c"
    using length_sv_text_le [of "m_str c"] by (simp add: to_string_def size_of_def)
  then have "length pre + length name + length ws + 1 + length val \<le> size_of c"
    using assms(2) by (simp add: DOUBLE_QUOTE_def)
  then have "to_string (sub_cursor (length pre + length name + length ws + 1) (length val) c)
      = take (length val) (drop (length pre + length name + length ws + 1) (to_string c))"
    by (rule to_string_sub_cursor)
  then show "to_string (sub_cursor (length pre + length name + length ws + 1) (length val) c) = val"
    using assms(2) by (simp add: DOUBLE_QUOTE_def)
qed

theorem getXmlAttr_without_equals_witness:
  "sv_ok (m_str (PatternSeeker_of (view_of ''<tag id \"123\">'')))
   \<and> to_string (PatternSeeker_of (view_of ''<tag id \"123\">''))
       = ''<tag '' @ ''id'' @ '' '' @ DOUBLE_QUOTE @ ''123'' @ DOUBLE_QUOTE @ ''>''
   \<and> first_from ''id'' (to_string (PatternSeeker_of (view_of ''<tag id \"123\">''))) 0 (length ''<tag '')
   \<and> isspace CHR '' ''
   \<and> CHR 0x22 \<notin> set ''123''
   \<and> CHR ''='' \<notin> set (to_string (PatternSeeker_of (view_of ''<tag id \"123\">'')))
   \<and> getXmlAttr ''id'' (PatternSeeker_of (view_of ''<tag id \"123\">''))
       = Inr (sub_cursor 9 3 (PatternSeeker_of (view_of ''<tag id \"123\">'')),
              PatternSeeker_of (view_of ''<tag id \"123\">''))
   \<and> to_string (sub_cursor 9 3 (PatternSeeker_of (view_of ''<tag id \"123\">''))) = ''123''"
proof -
  let ?c = "PatternSeeker_of (view_of ''<tag id \"123\">'')"
  have ok: "sv_ok (m_str ?c)"
    by (simp add: sv_ok_def PatternSeeker_of_def view_of_def)
  have t: "to_string ?c = ''<tag '' @ ''id'' @ '' '' @ DOUBLE_QUOTE @ ''123'' @ DOUBLE_QUOTE @ ''>''"
    by (simp add: to_string_def PatternSeeker_of_def view_of_def sv_text_def DOUBLE_QUOTE_def)
  have f: "first_from ''id'' (to_string ?c) 0 (length ''<tag '')"
    unfolding to_string_def by (rule sv_find_Some_first [OF ok])
      (simp add: sv_find_def PatternSeeker_of_def view_of_def sv_text_def)
  have w: "\<forall>x \<in> set '' ''. isspace x"
    by (simp add: isspace_def)
  have q: "CHR 0x22 \<notin> set ''123''"
    by simp
  have n: "CHR ''='' \<notin> set (to_string ?c)"
    by (simp add: t DOUBLE_QUOTE_def)
  show ?thesis
    using getXmlAttr_without_equals [OF ok t f w q] ok t f w q n
    by (simp add: eval_nat_numeral)
qed

section \<open>Unsigned numbers\<close>

lemma isdigit_not_space: "isdigit x \<Longrightarrow> \<not> isspace x"
  by (auto simp: isdigit_def isspace_def)

lemma isdigit_not_sign: "isdigit x \<Longrightarrow> x \<noteq> CHR ''-'' \<and> x \<noteq> CHR ''+''"
  by (auto simp: isdigit_def)

lemma sign_not_space: "\<not> isspace CHR ''-''" "\<not> isspace CHR ''+''"
  by (simp_all add: isspace_def)

lemma dropWhile_spaces:
  assumes "\<forall>x \<in> set ws. isspace x" "case r of [] \<Rightarrow> True | x # _ \<Rightarrow> \<not> isspace x"
  shows "dropWhile isspace (ws @ r) = r \<and> takeWhile isspace (ws @ r) = ws"
proof (cases r)
  case Nil
  with assms show ?thesis by simp
next
  case (Cons x xs)
  with assms show ?thesis
    by (simp add: dropWhile_append2 takeWhile_append2)
qed

lemma takeWhile_digits:
  assumes "\<forall>x \<in> set ds. isdigit x" "case rest of [] \<Rightarrow> True | x # _ \<Rightarrow> \<not> isdigit x"
  shows "takeWhile isdigit (ds @ rest) = ds"
proof (cases rest)
  case Nil
  with assms show ?thesis by simp
next
  case (Cons x xs)
  with assms show ?thesis by (simp add: takeWhile_append2)
qed

lemma strtoull_number:
  assumes ws: "\<forall>x \<in> set ws. isspace x"
    and sg: "sg = [] \<or> sg = ''+'' \<or> sg = ''-''"
    and ne: "ds \<noteq> []" and ds: "\<forall>x \<in> set ds. isdigit x"
    and rest: "case rest of [] \<Rightarrow> True | x # _ \<Rightarrow> \<not> isdigit x"
  shows "strtoull (ws @ sg @ ds @ rest)
           = (if 2 ^ 64 \<le> decimal ds then (- 1, True, length ws + length sg + length ds)
              else (if sg = ''-'' then - of_nat (decimal ds) else of_nat (decimal ds), False,
                    length ws + length sg + length ds))"
proof -
  obtain d ds' where d: "ds = d # ds'" using ne by (cases ds) auto
  then have dd: "isdigit d" using ds by simp
  let ?r = "sg @ ds @ rest"
  have "case ?r of [] \<Rightarrow> True | x # _ \<Rightarrow> \<not> isspace x"
    using sg d dd by (auto simp: isdigit_not_space sign_not_space)
  with ws have dw: "dropWhile isspace (ws @ ?r) = ?r" "takeWhile isspace (ws @ ?r) = ws"
    using dropWhile_spaces [of ws ?r] by simp_all
  have sl: "sign_length ?r = length sg"
    using sg d dd isdigit_not_sign [of d] by (auto simp: sign_length_def)
  have ng: "negative ?r = (sg = ''-'')"
    using sg d dd isdigit_not_sign [of d] by (auto simp: negative_def)
  have tw: "takeWhile isdigit (drop (length sg) ?r) = ds"
    using takeWhile_digits [OF ds rest] by simp
  show ?thesis
    unfolding strtoull_def dw sl ng tw Let_def using ne by simp
qed

lemma strtoull_no_number:
  assumes ws: "\<forall>x \<in> set ws. isspace x"
    and sg: "sg = [] \<or> sg = ''+'' \<or> sg = ''-''"
    and rest: "case rest of [] \<Rightarrow> True | x # _ \<Rightarrow> \<not> isdigit x"
    and bare: "sg = [] \<longrightarrow>
      (case rest of [] \<Rightarrow> True | x # _ \<Rightarrow> \<not> isspace x \<and> x \<noteq> CHR ''+'' \<and> x \<noteq> CHR ''-'')"
  shows "strtoull (ws @ sg @ rest) = (0, False, 0)"
proof -
  let ?r = "sg @ rest"
  have "case ?r of [] \<Rightarrow> True | x # _ \<Rightarrow> \<not> isspace x"
    using sg bare by (auto simp: sign_not_space split: list.splits)
  with ws have dw: "dropWhile isspace (ws @ ?r) = ?r"
    using dropWhile_spaces [of ws ?r] by simp
  have sl: "sign_length ?r = length sg"
    using sg bare by (auto simp: sign_length_def split: list.splits)
  have tw: "takeWhile isdigit (drop (length sg) ?r) = []"
    using rest by (cases rest) simp_all
  show ?thesis
    unfolding strtoull_def dw sl tw Let_def by simp
qed

lemma takeUInt64_number:
  assumes t: "c_str (m_str c) = ws @ sg @ ds @ rest"
    and ws: "\<forall>x \<in> set ws. isspace x"
    and sg: "sg = [] \<or> sg = ''+'' \<or> sg = ''-''"
    and ne: "ds \<noteq> []" and ds: "\<forall>x \<in> set ds. isdigit x"
    and rest: "case rest of [] \<Rightarrow> True | x # _ \<Rightarrow> \<not> isdigit x"
    and inside: "length ws + length sg + length ds \<le> size_of c"
  shows "takeUInt64 c
           = Inr (if decimal ds < 2 ^ 64
                  then Some (if sg = ''-'' then - of_nat (decimal ds) else of_nat (decimal ds))
                  else None,
                  advanced (length ws + length sg + length ds) c)"
proof -
  show ?thesis
    unfolding takeUInt64_def t strtoull_number [OF ws sg ne ds rest]
    using ne inside by (simp add: skip_eq Let_def not_le [symmetric])
qed

lemma takeUInt64_no_number:
  assumes t: "c_str (m_str c) = ws @ sg @ rest"
    and ws: "\<forall>x \<in> set ws. isspace x"
    and sg: "sg = [] \<or> sg = ''+'' \<or> sg = ''-''"
    and rest: "case rest of [] \<Rightarrow> True | x # _ \<Rightarrow> \<not> isdigit x"
    and bare: "sg = [] \<longrightarrow>
      (case rest of [] \<Rightarrow> True | x # _ \<Rightarrow> \<not> isspace x \<and> x \<noteq> CHR ''+'' \<and> x \<noteq> CHR ''-'')"
  shows "takeUInt64 c = Inr (None, c)"
  unfolding takeUInt64_def t strtoull_no_number [OF ws sg rest bare]
  by (simp add: skip_eq)

text \<open>
  Claim C3, as the code has it. \<open>takeUInt64\<close> hands the text at the start of the view to
  \<^verbatim>\<open>strtoull\<close>, which skips white space before the digits. So a view that begins with a
  blank and then digits yields a value, although it begins with no digit, and the view
  moves past the blank too.
\<close>

theorem takeUInt64_leading_space_counterexample:
  "takeUInt64 (PatternSeeker_of (view_of '' 42''))
     = Inr (Some 42, advanced 3 (PatternSeeker_of (view_of '' 42'')))
   \<and> takeWhile isdigit (to_string (PatternSeeker_of (view_of '' 42''))) = []
   \<and> advanced 3 (PatternSeeker_of (view_of '' 42'')) \<noteq> PatternSeeker_of (view_of '' 42'')"
  by (simp add: takeUInt64_def strtoull_def c_str_def PatternSeeker_of_def view_of_def
      isspace_def isdigit_def sign_length_def negative_def decimal_def skip_def
      sv_remove_prefix_def advanced_def sub_cursor_def size_of_def to_string_def sv_text_def)

text \<open>
  Claim C3, amended. Let the text at the start of the view begin with white space \<open>ws\<close>
  (possibly none). If a non-empty maximal run of decimal digits \<open>ds\<close> follows the white
  space and the conversion ends inside the view, \<open>takeUInt64\<close> returns the value of \<open>ds\<close>
  when it is below \<open>2^64\<close> and no value otherwise, and in both cases the view advances
  past \<open>ws\<close> and \<open>ds\<close>. If no digit follows the white space and an optional sign \<open>sg\<close>,
  it returns no value and the view is unchanged. Digits after a sign are left out: the
  statement says nothing about them.
\<close>

theorem takeUInt64_follows_strtoull:
  "(c_str (m_str c) = ws @ ds @ rest
      \<and> (\<forall>x \<in> set ws. isspace x)
      \<and> ds \<noteq> [] \<and> (\<forall>x \<in> set ds. isdigit x)
      \<and> (case rest of [] \<Rightarrow> True | x # _ \<Rightarrow> \<not> isdigit x)
      \<and> length ws + length ds \<le> size_of c \<longrightarrow>
        takeUInt64 c
          = Inr (if decimal ds < 2 ^ 64 then Some (of_nat (decimal ds)) else None,
                 advanced (length ws + length ds) c))
   \<and> (c_str (m_str c) = ws @ sg @ rest
      \<and> (\<forall>x \<in> set ws. isspace x) \<and> (sg = [] \<or> sg = ''+'' \<or> sg = ''-'')
      \<and> (case rest of [] \<Rightarrow> True | x # _ \<Rightarrow> \<not> isdigit x)
      \<and> (sg = [] \<longrightarrow>
           (case rest of [] \<Rightarrow> True
            | x # _ \<Rightarrow> \<not> isspace x \<and> x \<noteq> CHR ''+'' \<and> x \<noteq> CHR ''-'')) \<longrightarrow>
        takeUInt64 c = Inr (None, c))"
proof (intro conjI impI)
  assume "c_str (m_str c) = ws @ ds @ rest
      \<and> (\<forall>x \<in> set ws. isspace x)
      \<and> ds \<noteq> [] \<and> (\<forall>x \<in> set ds. isdigit x)
      \<and> (case rest of [] \<Rightarrow> True | x # _ \<Rightarrow> \<not> isdigit x)
      \<and> length ws + length ds \<le> size_of c"
  then have "c_str (m_str c) = ws @ [] @ ds @ rest" "\<forall>x \<in> set ws. isspace x"
    "ds \<noteq> []" "\<forall>x \<in> set ds. isdigit x"
    "case rest of [] \<Rightarrow> True | x # _ \<Rightarrow> \<not> isdigit x"
    "length ws + length ([] :: string) + length ds \<le> size_of c"
    by simp_all
  from takeUInt64_number [OF this(1,2) _ this(3,4,5,6)]
  show "takeUInt64 c
          = Inr (if decimal ds < 2 ^ 64 then Some (of_nat (decimal ds)) else None,
                 advanced (length ws + length ds) c)"
    by simp
next
  assume "c_str (m_str c) = ws @ sg @ rest
      \<and> (\<forall>x \<in> set ws. isspace x) \<and> (sg = [] \<or> sg = ''+'' \<or> sg = ''-'')
      \<and> (case rest of [] \<Rightarrow> True | x # _ \<Rightarrow> \<not> isdigit x)
      \<and> (sg = [] \<longrightarrow>
           (case rest of [] \<Rightarrow> True
            | x # _ \<Rightarrow> \<not> isspace x \<and> x \<noteq> CHR ''+'' \<and> x \<noteq> CHR ''-''))"
  then have "c_str (m_str c) = ws @ sg @ rest" "\<forall>x \<in> set ws. isspace x"
    "sg = [] \<or> sg = ''+'' \<or> sg = ''-''"
    "case rest of [] \<Rightarrow> True | x # _ \<Rightarrow> \<not> isdigit x"
    "sg = [] \<longrightarrow>
      (case rest of [] \<Rightarrow> True | x # _ \<Rightarrow> \<not> isspace x \<and> x \<noteq> CHR ''+'' \<and> x \<noteq> CHR ''-'')"
    by simp_all
  then show "takeUInt64 c = Inr (None, c)"
    by (rule takeUInt64_no_number)
qed

theorem takeUInt64_follows_strtoull_witness:
  "takeUInt64 (PatternSeeker_of (view_of ''12345 remainder''))
     = Inr (Some 12345, advanced 5 (PatternSeeker_of (view_of ''12345 remainder'')))
   \<and> to_string (advanced 5 (PatternSeeker_of (view_of ''12345 remainder''))) = '' remainder''
   \<and> takeUInt64 (PatternSeeker_of (view_of ''  7;''))
     = Inr (Some 7, advanced 3 (PatternSeeker_of (view_of ''  7;'')))
   \<and> takeUInt64 (PatternSeeker_of (view_of '' -x''))
     = Inr (None, PatternSeeker_of (view_of '' -x''))
   \<and> takeUInt64 (PatternSeeker_of (view_of ''18446744073709551616''))
     = Inr (None, advanced 20 (PatternSeeker_of (view_of ''18446744073709551616'')))
   \<and> takeUInt64 (PatternSeeker_of (view_of ''not_a_number''))
     = Inr (None, PatternSeeker_of (view_of ''not_a_number''))"
proof -
  let ?a = "PatternSeeker_of (view_of ''12345 remainder'')"
  let ?b = "PatternSeeker_of (view_of ''  7;'')"
  let ?m = "PatternSeeker_of (view_of '' -x'')"
  let ?o = "PatternSeeker_of (view_of ''18446744073709551616'')"
  let ?n = "PatternSeeker_of (view_of ''not_a_number'')"
  have ev: "c_str (m_str ?a) = [] @ ''12345'' @ '' remainder''"
    "c_str (m_str ?b) = ''  '' @ ''7'' @ '';''"
    "c_str (m_str ?o) = [] @ ''18446744073709551616'' @ []"
    "c_str (m_str ?n) = [] @ [] @ ''not_a_number''"
    "c_str (m_str ?m) = '' '' @ ''-'' @ ''x''"
    by (simp_all add: c_str_def PatternSeeker_of_def view_of_def)
  have sz: "size_of ?a = 15" "size_of ?b = 4" "size_of ?o = 20"
    by (simp_all add: size_of_def PatternSeeker_of_def view_of_def)
  have dg: "\<forall>x \<in> set ''12345''. isdigit x" "\<forall>x \<in> set ''7''. isdigit x"
    "\<forall>x \<in> set ''18446744073709551616''. isdigit x" "\<not> isdigit CHR '' ''" "\<not> isdigit CHR '';''"
    "\<not> isdigit CHR ''n''" "\<not> isspace CHR ''n''" "isspace CHR '' ''" "\<not> isdigit CHR ''x''"
    by (simp_all add: isdigit_def isspace_def)
  have dv: "decimal ''12345'' = 12345" "decimal ''7'' = 7"
    "decimal ''18446744073709551616'' = 18446744073709551616"
    by (simp_all add: decimal_def)
  have nm: "Suc (Suc (Suc (Suc (Suc (0))))) = 5" "Suc (Suc (Suc (0))) = 3" "Suc (Suc (Suc (Suc (Suc (Suc (Suc (Suc (Suc (Suc (Suc (Suc (Suc (Suc (Suc (Suc (Suc (Suc (Suc (Suc (0)))))))))))))))))))) = 20"
    by simp_all
  have r1: "takeUInt64 ?a = Inr (Some 12345, advanced 5 ?a)"
    using takeUInt64_follows_strtoull [of ?a "[]" "''12345''" "'' remainder''"] ev sz dg dv
    by (simp add: nm)
  have r2: "takeUInt64 ?b = Inr (Some 7, advanced 3 ?b)"
    using takeUInt64_follows_strtoull [of ?b "''  ''" "''7''" "'';''"] ev sz dg dv
    by (simp add: nm)
  have r3: "takeUInt64 ?o = Inr (None, advanced 20 ?o)"
    using takeUInt64_follows_strtoull [of ?o "[]" "''18446744073709551616''" "[]"] ev sz dg dv
    by (simp add: nm)
  have r4: "takeUInt64 ?n = Inr (None, ?n)"
    using takeUInt64_follows_strtoull [of ?n "[]" "[]" "''not_a_number''" "[]"] ev dg
    by simp
  have r5: "takeUInt64 ?m = Inr (None, ?m)"
    using takeUInt64_follows_strtoull [of ?m "'' ''" "[]" "''x''" "''-''"] ev dg
    by simp
  have t: "to_string (advanced 5 ?a) = '' remainder''"
    by (subst to_string_advanced)
      (simp add: to_string_def sv_text_def PatternSeeker_of_def view_of_def)
  show ?thesis using r1 r2 r3 r4 r5 t by simp
qed

section \<open>Extraction of a fixed number of characters\<close>

lemma extract_size_eq:
  "extract_size n mode c =
     (if mode = move_after \<and> size_of c < n then Inl UndefinedBehaviour
      else Inr (sub_cursor 0 (min n (size_of c)) c, if mode = move_after then advanced n c else c))"
proof -
  have s: "\<And>f. and_then (sv_substr 0 n (m_str c))
              (\<lambda>substr. f (PatternSeeker_derived substr (m_originalPointer c)))
            = f (sub_cursor 0 (min n (size_of c)) c)"
    using sv_substr_eq [of 0 c n] by simp
  show ?thesis
  proof (cases "mode = move_after")
    case False
    have "extract_size n mode c
        = and_then (sv_substr 0 n (m_str c)) (\<lambda>substr.
            Inr (PatternSeeker_derived substr (m_originalPointer c), c))"
      using False by (simp add: extract_size_def)
    also have "\<dots> = Inr (sub_cursor 0 (min n (size_of c)) c, c)" by (rule s)
    finally show ?thesis using False by simp
  next
    case True
    show ?thesis
    proof (cases "size_of c < n")
      case big: True
      have "extract_size n mode c
          = and_then (sv_substr 0 n (m_str c)) (\<lambda>substr. Inl UndefinedBehaviour)"
        using True big by (simp add: extract_size_def skip_fault)
      also have "\<dots> = Inl UndefinedBehaviour"
        by (simp add: sv_substr_def)
      finally show ?thesis using True big by simp
    next
      case False
      then have le: "n \<le> size_of c" by simp
      have "extract_size n mode c
          = and_then (sv_substr 0 n (m_str c)) (\<lambda>substr.
              Inr (PatternSeeker_derived substr (m_originalPointer c), advanced n c))"
        using True le by (simp add: extract_size_def skip_eq advanced_def)
      also have "\<dots> = Inr (sub_cursor 0 (min n (size_of c)) c, advanced n c)" by (rule s)
      finally show ?thesis using True False by simp
    qed
  qed
qed

lemma extract_size_text:
  "to_string (sub_cursor 0 (min n (size_of c)) c) = take n (to_string c)"
  by (simp add: to_string_def sub_cursor_def sv_text_def size_of_def min.commute)

text \<open>
  Claim C1 says that \<open>extract(n, mode)\<close> is safe for every \<open>n\<close> and every mode, and that with
  \<open>move_after\<close> and \<open>n\<close> larger than the view the receiver is left empty. The result is cut
  to the view by \<^verbatim>\<open>substr\<close>, but the receiver is moved by \<^verbatim>\<open>remove_prefix(n)\<close> with the
  uncut \<open>n\<close>, which is undefined for \<open>n > size()\<close> (\<open>extract_size_eq\<close> gives every case).
  On the view \<^verbatim>\<open>ab\<close> with \<open>n = 5\<close>: \<open>move_after\<close> faults, while mode \<open>none\<close> returns \<^verbatim>\<open>ab\<close>.
\<close>

theorem extract_size_move_after_past_end:
  "extract_size 5 move_after (PatternSeeker_of (view_of ''ab'')) = Inl UndefinedBehaviour
   \<and> extract_size 5 none (PatternSeeker_of (view_of ''ab''))
       = Inr (sub_cursor 0 2 (PatternSeeker_of (view_of ''ab'')), PatternSeeker_of (view_of ''ab''))
   \<and> to_string (sub_cursor 0 2 (PatternSeeker_of (view_of ''ab''))) = ''ab''"
  by (simp add: extract_size_def sv_substr_def skip_def sv_remove_prefix_def
      PatternSeeker_of_def view_of_def PatternSeeker_derived_def sub_cursor_def
      to_string_def sv_text_def)

section \<open>The empty sentinel\<close>

lemma sentinel_queries:
  "size_of PatternSeeker_empty = 0"
  "isEmpty PatternSeeker_empty"
  "to_string PatternSeeker_empty = []"
  "getOffset PatternSeeker_empty = 0"
  "startsWith s PatternSeeker_empty = (s = [])"
  by (simp_all add: size_of_def isEmpty_def to_string_def getOffset_def startsWith_def
      sv_starts_with_def PatternSeeker_empty_def EMPTY_STR_def sv_text_def)

lemma sentinel_advanced_0: "advanced 0 PatternSeeker_empty = PatternSeeker_empty"
  by simp

lemma sentinel_find: "sv_find s pos (m_str PatternSeeker_empty) = (if s = [] \<and> pos = 0 then Some 0 else None)"
  by (simp add: sv_find_def PatternSeeker_empty_def EMPTY_STR_def sv_text_def)

lemma sentinel_sub_cursor: "sub_cursor 0 0 PatternSeeker_empty = PatternSeeker_empty"
  by (simp add: sub_cursor_def PatternSeeker_empty_def EMPTY_STR_def)

lemma sentinel_searches:
  "expect s PatternSeeker_empty = Inr (s = [], PatternSeeker_empty)"
  "to s mode PatternSeeker_empty = Inr (s = [], PatternSeeker_empty)"
  "extract_to s none PatternSeeker_empty = Inr (PatternSeeker_empty, PatternSeeker_empty)"
  "extractUntilOneOf s mode PatternSeeker_empty = Inr (PatternSeeker_empty, PatternSeeker_empty)"
  "extract_chars a b mode PatternSeeker_empty = Inr (PatternSeeker_empty, PatternSeeker_empty)"
  "skipWhiteSpaces PatternSeeker_empty = Inr PatternSeeker_empty"
  "takeUInt64 PatternSeeker_empty = Inr (None, PatternSeeker_empty)"
  "takeInt64 PatternSeeker_empty = Inr (None, PatternSeeker_empty)"
proof -
  show "expect s PatternSeeker_empty = Inr (s = [], PatternSeeker_empty)"
    by (simp add: expect_eq sentinel_queries)
  show "to s mode PatternSeeker_empty = Inr (s = [], PatternSeeker_empty)"
    by (cases mode) (simp_all add: to_eq sentinel_find moved_def)
  show "extract_to s none PatternSeeker_empty = Inr (PatternSeeker_empty, PatternSeeker_empty)"
    by (simp add: extract_to_none sentinel_find sentinel_sub_cursor)
  show "extractUntilOneOf s mode PatternSeeker_empty = Inr (PatternSeeker_empty, PatternSeeker_empty)"
    by (simp add: extractUntilOneOf_def sv_find_first_of_def PatternSeeker_empty_def
        EMPTY_STR_def sv_text_def)
  show "extract_chars a b mode PatternSeeker_empty = Inr (PatternSeeker_empty, PatternSeeker_empty)"
    by (simp add: extract_chars_def sentinel_find)
  show "skipWhiteSpaces PatternSeeker_empty = Inr PatternSeeker_empty"
    by (subst skipWhiteSpaces.simps) (simp add: PatternSeeker_empty_def EMPTY_STR_def)
  show "takeUInt64 PatternSeeker_empty = Inr (None, PatternSeeker_empty)"
    by (simp add: takeUInt64_def strtoull_def c_str_def skip_eq sign_length_def
        PatternSeeker_empty_def EMPTY_STR_def)
  show "takeInt64 PatternSeeker_empty = Inr (None, PatternSeeker_empty)"
    by (simp add: takeInt64_def strtoll_def c_str_def skip_eq sign_length_def
        PatternSeeker_empty_def EMPTY_STR_def)
qed

text \<open>
  Claim C4 says that no operation faults on an expected failure and that every read on
  the empty sentinel is safe. The searches, the parsers and the queries are
  (\<open>sentinel_queries\<close>, \<open>sentinel_searches\<close>), but \<open>extract(1, move_after)\<close> on the sentinel
  moves an empty view by one character, which is undefined; with mode \<open>none\<close> the same
  call returns the sentinel. And \<open>takeUInt64\<close> on the empty view that \<open>extract("7")\<close>
  returns for the text \<^verbatim>\<open>7\<close> (no number in the view) converts the digit behind the view and
  then moves the empty view by one character.
\<close>

theorem sentinel_extract_size_faults:
  "extract_size 1 move_after PatternSeeker_empty = Inl UndefinedBehaviour
   \<and> extract_size 1 none PatternSeeker_empty = Inr (PatternSeeker_empty, PatternSeeker_empty)
   \<and> extract_to ''7'' none (PatternSeeker_of (view_of ''7''))
       = Inr (sub_cursor 0 0 (PatternSeeker_of (view_of ''7'')), PatternSeeker_of (view_of ''7''))
   \<and> to_string (sub_cursor 0 0 (PatternSeeker_of (view_of ''7''))) = []
   \<and> takeUInt64 (sub_cursor 0 0 (PatternSeeker_of (view_of ''7''))) = Inl UndefinedBehaviour"
  by (simp add: extract_size_def extract_to_def sv_find_def move_to_def sv_substr_def skip_def
      sv_remove_prefix_def PatternSeeker_empty_def EMPTY_STR_def PatternSeeker_of_def view_of_def
      PatternSeeker_derived_def sub_cursor_def to_string_def sv_text_def
      takeUInt64_def strtoull_def c_str_def isspace_def isdigit_def sign_length_def
      negative_def decimal_def)

section \<open>XML tags\<close>

lemmas xml_eval = getXmlTagBody_def getXmlTag_def sv_find_def sv_rfind_def sv_text_def
  sv_substr_def move_to_def PatternSeeker_derived_def PatternSeeker_of_def view_of_def
  sub_cursor_def isEmpty_def size_of_def to_string_def getOffset_def getOriginalPosition_def
  test_xml_def Let_def

text \<open>
  Claim C2 says that every extraction returns a cursor that shares the origin of the
  receiver, so that its offset is the distance of its view from the start of the buffer.
  On the XML text of the test suite, \<open>getXmlTagBody "name"\<close> returns the view \<^verbatim>\<open>John\<close>, which
  starts at index 12, with the origin moved to index 12 as well: its offset is 0, not 12.
  \<open>getXmlTag "name"\<close> on the same cursor keeps the origin: its offset is 6.
\<close>

theorem getXmlTagBody_origin_reset:
  "getXmlTagBody ''name'' none (PatternSeeker_of (view_of test_xml))
     = Inr (PatternSeeker_of (m_str (sub_cursor 12 4 (PatternSeeker_of (view_of test_xml)))),
            PatternSeeker_of (view_of test_xml))
   \<and> to_string (PatternSeeker_of (m_str (sub_cursor 12 4 (PatternSeeker_of (view_of test_xml)))))
       = ''John''
   \<and> sv_data (m_str (PatternSeeker_of (m_str (sub_cursor 12 4 (PatternSeeker_of (view_of test_xml))))))
       = 12
   \<and> m_originalPointer (PatternSeeker_of (view_of test_xml)) = 0
   \<and> m_originalPointer
         (PatternSeeker_of (m_str (sub_cursor 12 4 (PatternSeeker_of (view_of test_xml))))) = 12
   \<and> getOffset (PatternSeeker_of (m_str (sub_cursor 12 4 (PatternSeeker_of (view_of test_xml))))) = 0
   \<and> getOriginalPosition
         (PatternSeeker_of (m_str (sub_cursor 12 4 (PatternSeeker_of (view_of test_xml))))) = 0
   \<and> getXmlTag ''name'' none (PatternSeeker_of (view_of test_xml))
       = Inr (sub_cursor 6 17 (PatternSeeker_of (view_of test_xml)), PatternSeeker_of (view_of test_xml))
   \<and> getOffset (sub_cursor 6 17 (PatternSeeker_of (view_of test_xml))) = 6"
  by (simp add: xml_eval)

section \<open>JSON properties\<close>

lemmas json_eval = getJsonProp_def to_def expect_def startsWith_def skip_def sv_remove_prefix_def
  sv_starts_with_def sv_find_def sv_text_def extract_to_def extract_chars_def extractUntilOneOf_def
  sv_find_first_of_def sv_substr_def move_to_def PatternSeeker_derived_def PatternSeeker_of_def
  view_of_def sub_cursor_def DOUBLE_QUOTE_def isspace_def skipWhiteSpaces.simps to_string_def
  test_json_def

text \<open>
  Claim C8. On the JSON text of the test suite, \<open>getJsonProp\<close> yields \<^verbatim>\<open>John\<close> for
  \<^verbatim>\<open>name\<close>, \<^verbatim>\<open>30\<close> for \<^verbatim>\<open>age\<close>, \<^verbatim>\<open>[1,2,3]\<close> for \<^verbatim>\<open>array\<close> and
  \<^verbatim>\<open>{"nested": "value"}\<close> for \<^verbatim>\<open>obj\<close>, each as a slice of the document, and leaves the
  receiver as it was.
\<close>

theorem getJsonProp_test_document:
  "getJsonProp ''name'' (PatternSeeker_of (view_of test_json))
     = Inr (sub_cursor 10 4 (PatternSeeker_of (view_of test_json)), PatternSeeker_of (view_of test_json))
   \<and> to_string (sub_cursor 10 4 (PatternSeeker_of (view_of test_json))) = ''John''
   \<and> getJsonProp ''age'' (PatternSeeker_of (view_of test_json))
     = Inr (sub_cursor 24 2 (PatternSeeker_of (view_of test_json)), PatternSeeker_of (view_of test_json))
   \<and> to_string (sub_cursor 24 2 (PatternSeeker_of (view_of test_json))) = ''30''
   \<and> getJsonProp ''array'' (PatternSeeker_of (view_of test_json))
     = Inr (sub_cursor 37 7 (PatternSeeker_of (view_of test_json)), PatternSeeker_of (view_of test_json))
   \<and> to_string (sub_cursor 37 7 (PatternSeeker_of (view_of test_json))) = ''[1,2,3]''
   \<and> getJsonProp ''obj'' (PatternSeeker_of (view_of test_json))
     = Inr (sub_cursor 53 19 (PatternSeeker_of (view_of test_json)), PatternSeeker_of (view_of test_json))
   \<and> to_string (sub_cursor 53 19 (PatternSeeker_of (view_of test_json)))
     = ''{\"nested\": \"value\"}''"
proof (intro conjI)
  show "getJsonProp ''name'' (PatternSeeker_of (view_of test_json))
     = Inr (sub_cursor 10 4 (PatternSeeker_of (view_of test_json)), PatternSeeker_of (view_of test_json))"
    by (simp add: json_eval)
  show "getJsonProp ''age'' (PatternSeeker_of (view_of test_json))
     = Inr (sub_cursor 24 2 (PatternSeeker_of (view_of test_json)), PatternSeeker_of (view_of test_json))"
    by (simp add: json_eval)
  show "getJsonProp ''array'' (PatternSeeker_of (view_of test_json))
     = Inr (sub_cursor 37 7 (PatternSeeker_of (view_of test_json)), PatternSeeker_of (view_of test_json))"
    by (simp add: json_eval)
  show "getJsonProp ''obj'' (PatternSeeker_of (view_of test_json))
     = Inr (sub_cursor 53 19 (PatternSeeker_of (view_of test_json)), PatternSeeker_of (view_of test_json))"
    by (simp add: json_eval)
  show "to_string (sub_cursor 10 4 (PatternSeeker_of (view_of test_json))) = ''John''"
    by (simp add: json_eval)
  show "to_string (sub_cursor 24 2 (PatternSeeker_of (view_of test_json))) = ''30''"
    by (simp add: json_eval)
  show "to_string (sub_cursor 37 7 (PatternSeeker_of (view_of test_json))) = ''[1,2,3]''"
    by (simp add: json_eval)
  show "to_string (sub_cursor 53 19 (PatternSeeker_of (view_of test_json)))
     = ''{\"nested\": \"value\"}''"
    by (simp add: json_eval)
qed

end
